theory Spec2Isabelle
  imports Main "HOL-Library.Char_ord" "HOL-Library.List_Lexorder" "HOL-Library.Word"
begin

section \<open>Values exchanged with the matcher\<close>

text \<open>
  The request document of \<^verbatim>\<open>process_request_with_chunking\<close> is a Python dict decoded
  from JSON. Its schema has, per category, a string under \<^verbatim>\<open><prefix>_requested\<close> and a
  list of strings (or one bare string) under \<^verbatim>\<open><prefix>_list\<close>; the REST front end may
  also pass an explicit \<^verbatim>\<open>None\<close>. The TCP server passes on whatever \<^verbatim>\<open>json.loads\<close> returned,
  unvalidated, so a value may also be of a type the schema does not name: \<open>PyInt\<close> is a
  JSON integer, a value that is neither a string nor a list and cannot be iterated.
  (Booleans, floats, objects and lists with members that are not strings are not
  modelled.) The response dict holds strings and \<^verbatim>\<open>None\<close>, so it uses the same type.
\<close>

datatype py_value = PyNone | PyStr string | PyList "string list" | PyInt int

type_synonym request = "string \<rightharpoonup> py_value"
type_synonym response = "string \<rightharpoonup> py_value"

text \<open>Python truthiness (\<^verbatim>\<open>not x\<close> is its negation).\<close>

fun truthy :: "py_value \<Rightarrow> bool" where
  "truthy PyNone = False"
| "truthy (PyStr s) = (s \<noteq> [])"
| "truthy (PyList xs) = (xs \<noteq> [])"
| "truthy (PyInt n) = (n \<noteq> 0)"

text \<open>
  What \<^verbatim>\<open>response_json.get(actual_key, "NULL")\<close> can yield: a string, or a JSON value
  that is not a string (null, number, boolean, array, object). A non-string value is
  never equal to a string, so only its truthiness is kept.
\<close>

datatype answer = AStr string | ANonStr bool

fun answer_truthy :: "answer \<Rightarrow> bool" where
  "answer_truthy (AStr s) = (s \<noteq> [])"
| "answer_truthy (ANonStr b) = b"

text \<open>\<^verbatim>\<open>match in chunk\<close> on a list of strings.\<close>

fun answer_in :: "answer \<Rightarrow> string list \<Rightarrow> bool" where
  "answer_in (AStr s) chunk = (s \<in> set chunk)"
| "answer_in (ANonStr b) chunk = False"

text \<open>
  One oracle exchange is \<^verbatim>\<open>current_chain.invoke\<close>, \<^verbatim>\<open>json.loads\<close> and \<^verbatim>\<open>.get\<close> inside
  one \<^verbatim>\<open>try\<close>. \<open>Failed\<close> stands for every exception of that block (the call raised,
  the output was not JSON, the JSON was not an object): one \<^verbatim>\<open>except\<close> clause catches
  them all. \<open>Reply m\<close> is a parsed JSON object.
\<close>

datatype llm_reply = Failed | Reply "string \<rightharpoonup> answer"

text \<open>
  The oracle is external and may be nondeterministic: its reply may depend on the number
  of calls made so far, besides the category, the input term and the choices offered.
  The log lists the choices offered in each call, oldest first.
\<close>

type_synonym call_log = "string list list"
type_synonym llm_oracle = "nat \<Rightarrow> string \<Rightarrow> py_value \<Rightarrow> string list \<Rightarrow> llm_reply"

datatype error = ValueError | TypeError | StructError | ConnectionError | ConnectionResetError
  | BrokenPipeError

definition MATCHER_VERSION :: string where
  "MATCHER_VERSION = ''2.0''"

definition possible_prefixes :: "string list" where
  "possible_prefixes = [''cell_type'', ''binding_molecule'', ''species'']"

definition requested_key :: "string \<Rightarrow> string" where
  "requested_key prefix = prefix @ ''_requested''"

definition list_key :: "string \<Rightarrow> string" where
  "list_key prefix = prefix @ ''_list''"

definition actual_key :: "string \<Rightarrow> string" where
  "actual_key prefix = prefix @ ''_actual''"

section \<open>Chunking\<close>

text \<open>
  \<^verbatim>\<open>[xs[i:i + k] for i in range(0, len(xs), k)]\<close>: \<^verbatim>\<open>range\<close> raises ValueError for a
  zero step and is empty for a negative one.
\<close>

function chunks_of :: "nat \<Rightarrow> 'a list \<Rightarrow> 'a list list" where
  "chunks_of k xs = (if k = 0 \<or> xs = [] then [] else take k xs # chunks_of k (drop k xs))"
  by pat_completeness auto
termination
  by (relation "measure (\<lambda>(k, xs). length xs)") auto

declare chunks_of.simps [simp del]

definition split_chunks :: "int \<Rightarrow> 'a list \<Rightarrow> error + 'a list list" where
  "split_chunks list_chunk_size xs =
     (if list_chunk_size = 0 then Inl ValueError
      else if list_chunk_size < 0 then Inr []
      else Inr (chunks_of (nat list_chunk_size) xs))"

section \<open>One tournament round\<close>

definition invoke :: "llm_oracle \<Rightarrow> string \<Rightarrow> py_value \<Rightarrow> string list \<Rightarrow> call_log
    \<Rightarrow> llm_reply \<times> call_log" where
  "invoke orc prefix input_term choices log =
     (orc (length log) prefix input_term choices, log @ [choices])"

definition get_match :: "(string \<rightharpoonup> answer) \<Rightarrow> string \<Rightarrow> answer" where
  "get_match response_json key = (case response_json key of None \<Rightarrow> AStr ''NULL'' | Some v \<Rightarrow> v)"

text \<open>The body of the \<^verbatim>\<open>for i, chunk in enumerate(chunks)\<close> loops.\<close>

definition process_chunk :: "llm_oracle \<Rightarrow> string \<Rightarrow> py_value \<Rightarrow> string list
    \<Rightarrow> string list \<times> call_log \<Rightarrow> string list \<times> call_log" where
  "process_chunk orc prefix input_term chunk st =
     (case st of (chunk_champions, log) \<Rightarrow>
        (case invoke orc prefix input_term chunk log of (r, log') \<Rightarrow>
           (case r of
              Failed \<Rightarrow> (chunk_champions, log')
            | Reply response_json \<Rightarrow>
                (let match = get_match response_json (actual_key prefix) in
                 if answer_truthy match \<and> match \<noteq> AStr ''NULL''
                 then (if answer_in match chunk
                       then (case match of
                               AStr s \<Rightarrow> (chunk_champions @ [s], log')
                             | ANonStr b \<Rightarrow> (chunk_champions, log'))
                       else (chunk_champions, log'))
                 else (chunk_champions, log')))))"

fun process_chunks :: "llm_oracle \<Rightarrow> string \<Rightarrow> py_value \<Rightarrow> string list list
    \<Rightarrow> string list \<times> call_log \<Rightarrow> string list \<times> call_log" where
  "process_chunks orc prefix input_term [] st = st"
| "process_chunks orc prefix input_term (chunk # chunks) st =
     process_chunks orc prefix input_term chunks (process_chunk orc prefix input_term chunk st)"

text \<open>\<^verbatim>\<open>sorted(list(set(chunk_champions)))\<close>\<close>

definition unique_sorted :: "string list \<Rightarrow> string list" where
  "unique_sorted xs = sort (remdups xs)"

text \<open>
  Round 0 and every championship round are the same code: split, ask once per chunk,
  deduplicate and sort the winners.
\<close>

definition play_round :: "llm_oracle \<Rightarrow> string \<Rightarrow> py_value \<Rightarrow> int \<Rightarrow> string list \<Rightarrow> call_log
    \<Rightarrow> error + string list \<times> call_log" where
  "play_round orc prefix input_term list_chunk_size candidates log =
     (case split_chunks list_chunk_size candidates of
        Inl e \<Rightarrow> Inl e
      | Inr chunks \<Rightarrow>
          (case process_chunks orc prefix input_term chunks ([], log) of
             (chunk_champions, log') \<Rightarrow> Inr (unique_sorted chunk_champions, log')))"

section \<open>The championship loop and the final decision\<close>

text \<open>
  \<^verbatim>\<open>while len(unique_champions) > list_chunk_size\<close>. The loop need not terminate, so
  not returning is the value \<open>None\<close>.
\<close>

partial_function (option) championship :: "llm_oracle \<Rightarrow> string \<Rightarrow> py_value \<Rightarrow> int
    \<Rightarrow> string list \<times> call_log \<Rightarrow> (error + string list \<times> call_log) option" where
  "championship orc prefix input_term list_chunk_size st =
     (if int (length (fst st)) > list_chunk_size
      then (case play_round orc prefix input_term list_chunk_size (fst st) (snd st) of
              Inl e \<Rightarrow> Some (Inl e)
            | Inr st' \<Rightarrow> championship orc prefix input_term list_chunk_size st')
      else Some (Inr st))"

declare championship.simps [code]

definition final_decision :: "llm_oracle \<Rightarrow> string \<Rightarrow> py_value \<Rightarrow> string list \<Rightarrow> call_log
    \<Rightarrow> string \<times> call_log" where
  "final_decision orc prefix input_term unique_champions log =
     (if length unique_champions = 1 then (hd unique_champions, log)
      else if length unique_champions > 1 then
        (case invoke orc prefix input_term unique_champions log of (r, log') \<Rightarrow>
           (case r of
              Failed \<Rightarrow> (''NULL'', log')
            | Reply response_json \<Rightarrow>
                (let final_answer = get_match response_json (actual_key prefix) in
                 if \<not> answer_in final_answer unique_champions then (''NULL'', log')
                 else (case final_answer of AStr s \<Rightarrow> (s, log') | ANonStr b \<Rightarrow> (''NULL'', log')))))
      else (''NULL'', log))"

text \<open>One category's tournament: round 0, the championship rounds, the final decision.\<close>

definition tournament :: "llm_oracle \<Rightarrow> string \<Rightarrow> py_value \<Rightarrow> int \<Rightarrow> string list \<Rightarrow> call_log
    \<Rightarrow> (error + string \<times> call_log) option" where
  "tournament orc prefix input_term list_chunk_size choices_list log =
     (case play_round orc prefix input_term list_chunk_size choices_list log of
        Inl e \<Rightarrow> Some (Inl e)
      | Inr st0 \<Rightarrow>
          (case championship orc prefix input_term list_chunk_size st0 of
             None \<Rightarrow> None
           | Some (Inl e) \<Rightarrow> Some (Inl e)
           | Some (Inr (unique_champions, log')) \<Rightarrow>
               Some (Inr (final_decision orc prefix input_term unique_champions log'))))"

section \<open>The dispatcher\<close>

text \<open>
  \<^verbatim>\<open>if isinstance(choices_list, str): choices_list = [choices_list]\<close> and
  \<^verbatim>\<open>if not isinstance(choices_list, list): choices_list = [str(choice) for choice in choices_list]\<close>:
  a bare string is one choice, a list is taken as it is, and iterating a value that is
  not iterable raises TypeError, outside any \<^verbatim>\<open>try\<close>.
\<close>

fun as_choices :: "py_value \<Rightarrow> error + string list" where
  "as_choices (PyStr s) = Inr [s]"
| "as_choices (PyList xs) = Inr xs"
| "as_choices PyNone = Inl TypeError"
| "as_choices (PyInt n) = Inl TypeError"

text \<open>The body of \<^verbatim>\<open>for prefix in possible_prefixes\<close>.\<close>

definition process_prefix :: "llm_oracle \<Rightarrow> int \<Rightarrow> request \<Rightarrow> string \<Rightarrow> response \<times> call_log
    \<Rightarrow> (error + response \<times> call_log) option" where
  "process_prefix orc list_chunk_size request_data prefix st =
     (case st of (response_data, log) \<Rightarrow>
        (case (request_data (requested_key prefix), request_data (list_key prefix)) of
           (Some input_term, Some choices_list) \<Rightarrow>
             if \<not> truthy input_term \<or> \<not> truthy choices_list
             then Some (Inr (response_data(actual_key prefix \<mapsto> PyNone), log))
             else (case as_choices choices_list of
                     Inl e \<Rightarrow> Some (Inl e)
                   | Inr choices \<Rightarrow>
                       (case tournament orc prefix input_term list_chunk_size choices log of
                          None \<Rightarrow> None
                        | Some (Inl e) \<Rightarrow> Some (Inl e)
                        | Some (Inr (final_answer, log')) \<Rightarrow>
                            Some (Inr (response_data(actual_key prefix \<mapsto> PyStr final_answer),
                                       log'))))
         | _ \<Rightarrow> Some (Inr (response_data, log))))"

fun process_prefixes :: "llm_oracle \<Rightarrow> int \<Rightarrow> request \<Rightarrow> string list \<Rightarrow> response \<times> call_log
    \<Rightarrow> (error + response \<times> call_log) option" where
  "process_prefixes orc list_chunk_size request_data [] st = Some (Inr st)"
| "process_prefixes orc list_chunk_size request_data (prefix # prefixes) st =
     (case process_prefix orc list_chunk_size request_data prefix st of
        None \<Rightarrow> None
      | Some (Inl e) \<Rightarrow> Some (Inl e)
      | Some (Inr st') \<Rightarrow> process_prefixes orc list_chunk_size request_data prefixes st')"

definition process_request_with_chunking :: "llm_oracle \<Rightarrow> request \<Rightarrow> int \<Rightarrow> call_log
    \<Rightarrow> (error + response \<times> call_log) option" where
  "process_request_with_chunking orc request_data list_chunk_size log =
     (case process_prefixes orc list_chunk_size request_data possible_prefixes (Map.empty, log) of
        None \<Rightarrow> None
      | Some (Inl e) \<Rightarrow> Some (Inl e)
      | Some (Inr (response_data, log')) \<Rightarrow>
          Some (Inr (response_data(''matcher_version'' \<mapsto> PyStr MATCHER_VERSION), log')))"

text \<open>
  The successful runs of the championship loop as a relation, with the unique-champion
  count at the start of each iteration and at the exit (the counts after round 0,
  round 1, ...).
\<close>

inductive championship_rounds :: "llm_oracle \<Rightarrow> string \<Rightarrow> py_value \<Rightarrow> int
    \<Rightarrow> string list \<times> call_log \<Rightarrow> nat list \<Rightarrow> string list \<times> call_log \<Rightarrow> bool"
  for orc :: llm_oracle and prefix :: string and input_term :: py_value and list_chunk_size :: int
  where
    exit_loop: "\<not> list_chunk_size < int (length (fst st))
      \<Longrightarrow> championship_rounds orc prefix input_term list_chunk_size st [length (fst st)] st"
  | next_round: "list_chunk_size < int (length (fst st))
      \<Longrightarrow> play_round orc prefix input_term list_chunk_size (fst st) (snd st) = Inr st'
      \<Longrightarrow> championship_rounds orc prefix input_term list_chunk_size st' counts st''
      \<Longrightarrow> championship_rounds orc prefix input_term list_chunk_size st
            (length (fst st) # counts) st''"

definition ceil_div :: "nat \<Rightarrow> nat \<Rightarrow> nat" where
  "ceil_div m k = (m + k - 1) div k"

text \<open>
  The number of oracle calls of one tournament over \<open>m\<close> candidates, from the
  unique-champion counts after each round: a round entered with fewer than two
  champions costs no call.
\<close>

definition oracle_calls :: "nat \<Rightarrow> nat \<Rightarrow> nat list \<Rightarrow> nat" where
  "oracle_calls k m counts =
     ceil_div m k + sum_list (map (\<lambda>c. if 2 \<le> c then ceil_div c k else 0) counts)"

text \<open>
  The count as the specification words it: \<open>ceil(M/K) + ceil(C1/K) + \<dots> + 1\<close>, every
  round after round 0 costing \<open>ceil(C\<^sub>i/K)\<close> calls.
\<close>

definition spec_oracle_calls :: "nat \<Rightarrow> nat \<Rightarrow> nat list \<Rightarrow> nat" where
  "spec_oracle_calls k m counts = ceil_div m k + sum_list (map (\<lambda>c. ceil_div c k) counts)"

section \<open>The REST front end\<close>

text \<open>
  \<^verbatim>\<open>MatcherRequest\<close>: six optional fields. \<open>model_fields_set\<close> is the set of field
  names the request body gave explicitly, which \<^verbatim>\<open>model_dump(exclude_unset=True)\<close> keeps.
\<close>

record MatcherRequest =
  cell_type_requested :: "string option"
  cell_type_list :: "string list option"
  species_requested :: "string option"
  species_list :: "string list option"
  binding_molecule_requested :: "string option"
  binding_molecule_list :: "string list option"
  model_fields_set :: "string set"

text \<open>\<^verbatim>\<open>not x\<close> for an optional list and for an optional string.\<close>

fun falsy_list :: "string list option \<Rightarrow> bool" where
  "falsy_list None = True"
| "falsy_list (Some xs) = (xs = [])"

fun falsy_str :: "string option \<Rightarrow> bool" where
  "falsy_str None = True"
| "falsy_str (Some s) = (s = [])"

definition check_paired_fields :: "MatcherRequest \<Rightarrow> error + MatcherRequest" where
  "check_paired_fields self =
     (if cell_type_requested self \<noteq> None \<and> falsy_list (cell_type_list self) then Inl ValueError
      else if species_requested self \<noteq> None \<and> falsy_list (species_list self) then Inl ValueError
      else if binding_molecule_requested self \<noteq> None \<and> falsy_list (binding_molecule_list self)
        then Inl ValueError
      else Inr self)"

definition check_at_least_one_pair :: "MatcherRequest \<Rightarrow> error + MatcherRequest" where
  "check_at_least_one_pair self =
     (if \<not> (\<not> falsy_str (cell_type_requested self) \<or> \<not> falsy_str (species_requested self)
             \<or> \<not> falsy_str (binding_molecule_requested self))
      then Inl ValueError
      else Inr self)"

text \<open>Both model validators run, in the order of their definition; the first error rejects.\<close>

definition validate_request :: "MatcherRequest \<Rightarrow> error + MatcherRequest" where
  "validate_request r =
     (case check_paired_fields r of Inl e \<Rightarrow> Inl e | Inr r' \<Rightarrow> check_at_least_one_pair r')"

definition dump_str :: "string option \<Rightarrow> py_value" where
  "dump_str v = (case v of None \<Rightarrow> PyNone | Some s \<Rightarrow> PyStr s)"

definition dump_list :: "string list option \<Rightarrow> py_value" where
  "dump_list v = (case v of None \<Rightarrow> PyNone | Some xs \<Rightarrow> PyList xs)"

definition field_value :: "MatcherRequest \<Rightarrow> string \<Rightarrow> py_value option" where
  "field_value r k =
     (if k = ''cell_type_requested'' then Some (dump_str (cell_type_requested r))
      else if k = ''cell_type_list'' then Some (dump_list (cell_type_list r))
      else if k = ''species_requested'' then Some (dump_str (species_requested r))
      else if k = ''species_list'' then Some (dump_list (species_list r))
      else if k = ''binding_molecule_requested'' then Some (dump_str (binding_molecule_requested r))
      else if k = ''binding_molecule_list'' then Some (dump_list (binding_molecule_list r))
      else None)"

definition model_dump_exclude_unset :: "MatcherRequest \<Rightarrow> request" where
  "model_dump_exclude_unset r k = (if k \<in> model_fields_set r then field_value r k else None)"

definition DEFAULT_CHUNK_SIZE :: int where
  "DEFAULT_CHUNK_SIZE = 20"

datatype rest_result = Rejected error | InternalError | Matched response

text \<open>
  \<^verbatim>\<open>perform_match\<close> runs only on a request that passed validation; an exception of the
  matching logic becomes \<^verbatim>\<open>MatcherLogicError\<close> (a 500 response).
\<close>

definition perform_match :: "llm_oracle \<Rightarrow> MatcherRequest \<Rightarrow> call_log
    \<Rightarrow> (rest_result \<times> call_log) option" where
  "perform_match orc r log =
     (case process_request_with_chunking orc (model_dump_exclude_unset r) DEFAULT_CHUNK_SIZE log of
        None \<Rightarrow> None
      | Some (Inl e) \<Rightarrow> Some (InternalError, log)
      | Some (Inr (response_data, log')) \<Rightarrow> Some (Matched response_data, log'))"

definition rest_match :: "llm_oracle \<Rightarrow> MatcherRequest \<Rightarrow> call_log
    \<Rightarrow> (rest_result \<times> call_log) option" where
  "rest_match orc r log =
     (case validate_request r of
        Inl e \<Rightarrow> Some (Rejected e, log)
      | Inr r' \<Rightarrow> perform_match orc r' log)"

section \<open>The framed TCP session\<close>

type_synonym byte = "8 word"

text \<open>
  What the peer still delivers, in order: segments of bytes as they arrive, or a
  connection reset. When the list is exhausted the peer has closed the stream, and
  \<^verbatim>\<open>recv\<close> returns \<^verbatim>\<open>b''\<close>.
\<close>

datatype rx_event = Data "byte list" | Reset

record client_socket =
  incoming :: "rx_event list"
  outgoing :: "byte list"
  peer_reading :: bool
  closed :: nat

definition BUFFER_SIZE :: nat where
  "BUFFER_SIZE = 65536"

text \<open>\<^verbatim>\<open>recv(n)\<close>: at most \<open>n\<close> bytes of what has arrived; empty at end of stream.\<close>

fun recv :: "nat \<Rightarrow> rx_event list \<Rightarrow> error + byte list \<times> rx_event list" where
  "recv n [] = Inr ([], [])"
| "recv n (Reset # rest) = Inl ConnectionResetError"
| "recv n (Data seg # rest) =
     (if seg = [] then recv n rest
      else if length seg \<le> n then Inr (seg, rest)
      else Inr (take n seg, Data (drop n seg) # rest))"

text \<open>\<^verbatim>\<open>recv(n, socket.MSG_WAITALL)\<close>: waits for \<open>n\<close> bytes, or fewer at end of stream.\<close>

fun recv_waitall :: "nat \<Rightarrow> rx_event list \<Rightarrow> error + byte list \<times> rx_event list" where
  "recv_waitall n [] = Inr ([], [])"
| "recv_waitall n (Reset # rest) = Inl ConnectionResetError"
| "recv_waitall n (Data seg # rest) =
     (if n \<le> length seg then Inr (take n seg, Data (drop n seg) # rest)
      else (case recv_waitall (n - length seg) rest of
              Inl e \<Rightarrow> Inl e
            | Inr (bs, rest') \<Rightarrow> Inr (seg @ bs, rest')))"

text \<open>\<^verbatim>\<open>struct.unpack('>I', b)[0]\<close> and \<^verbatim>\<open>struct.pack(">I", n)\<close>\<close>

fun unpack_be32 :: "byte list \<Rightarrow> error + nat" where
  "unpack_be32 [a, b, c, d] = Inr (((unat a * 256 + unat b) * 256 + unat c) * 256 + unat d)"
| "unpack_be32 bs = Inl StructError"

definition pack_be32 :: "nat \<Rightarrow> error + byte list" where
  "pack_be32 n =
     (if n < 2 ^ 32
      then Inr [of_nat (n div 2 ^ 24), of_nat (n div 2 ^ 16), of_nat (n div 2 ^ 8), of_nat n]
      else Inl StructError)"

text \<open>\<^verbatim>\<open>while len(data_recv) < msglen\<close>: an empty packet raises ConnectionError.\<close>

function recv_payload :: "nat \<Rightarrow> byte list \<Rightarrow> rx_event list \<Rightarrow> error + byte list \<times> rx_event list"
  where
  "recv_payload msglen data_recv rx =
     (if length data_recv < msglen
      then (case recv (min BUFFER_SIZE (msglen - length data_recv)) rx of
              Inl e \<Rightarrow> Inl e
            | Inr (packet, rx') \<Rightarrow>
                if packet = [] then Inl ConnectionError
                else recv_payload msglen (data_recv @ packet) rx')
      else Inr (data_recv, rx))"
  by pat_completeness auto
termination
  by (relation "measure (\<lambda>(msglen, data_recv, rx). msglen - length data_recv)")
    (auto simp flip: length_greater_0_conv)

declare recv_payload.simps [simp del]

definition sendall :: "byte list \<Rightarrow> client_socket \<Rightarrow> error + client_socket" where
  "sendall bs s =
     (if peer_reading s then Inr (s\<lparr>outgoing := outgoing s @ bs\<rparr>) else Inl BrokenPipeError)"

definition close_socket :: "client_socket \<Rightarrow> client_socket" where
  "close_socket s = s\<lparr>closed := Suc (closed s)\<rparr>"

text \<open>
  One pass through the body of \<^verbatim>\<open>while connection_active\<close>, with its \<^verbatim>\<open>except\<close> clauses and
  its \<^verbatim>\<open>finally\<close>: the result is the new value of \<^verbatim>\<open>connection_active\<close> and the new state.
  Every way of setting \<^verbatim>\<open>connection_active = False\<close> ends in the \<^verbatim>\<open>finally\<close> block, which
  closes the socket. \<open>decode\<close> stands for \<^verbatim>\<open>json.loads(data_recv.decode("utf-8"))\<close>
  (\<open>None\<close> when it raises) and \<open>encode\<close> for \<^verbatim>\<open>json.dumps(response_data).encode("utf-8")\<close>.
\<close>

definition stop_session :: "client_socket \<Rightarrow> call_log \<Rightarrow> (bool \<times> client_socket \<times> call_log) option"
  where
  "stop_session s log = Some (False, close_socket s, log)"

definition handle_request :: "llm_oracle \<Rightarrow> (byte list \<Rightarrow> request option)
    \<Rightarrow> (response \<Rightarrow> byte list) \<Rightarrow> client_socket \<times> call_log
    \<Rightarrow> (bool \<times> client_socket \<times> call_log) option" where
  "handle_request orc decode encode st =
     (case st of (s, log) \<Rightarrow>
        (case recv_waitall 4 (incoming s) of
           Inl e \<Rightarrow> stop_session s log
         | Inr (msg_length_bytes, rx1) \<Rightarrow>
             if msg_length_bytes = [] then stop_session (s\<lparr>incoming := rx1\<rparr>) log
             else (case unpack_be32 msg_length_bytes of
                     Inl e \<Rightarrow> stop_session (s\<lparr>incoming := rx1\<rparr>) log
                   | Inr msglen \<Rightarrow>
                       (case recv_payload msglen [] rx1 of
                          Inl e \<Rightarrow> stop_session (s\<lparr>incoming := rx1\<rparr>) log
                        | Inr (data_recv, rx2) \<Rightarrow>
                            if length data_recv \<noteq> msglen
                            then stop_session (s\<lparr>incoming := rx2\<rparr>) log
                            else (case decode data_recv of
                                    None \<Rightarrow> stop_session (s\<lparr>incoming := rx2\<rparr>) log
                                  | Some request_data \<Rightarrow>
   (case process_request_with_chunking orc request_data DEFAULT_CHUNK_SIZE log of
      None \<Rightarrow> None
    | Some (Inl e) \<Rightarrow> stop_session (s\<lparr>incoming := rx2\<rparr>) log
    | Some (Inr (response_data, log')) \<Rightarrow>
        (let response_bytes = encode response_data in
         case pack_be32 (length response_bytes) of
           Inl e \<Rightarrow> stop_session (s\<lparr>incoming := rx2\<rparr>) log'
         | Inr header \<Rightarrow>
             (case sendall header (s\<lparr>incoming := rx2\<rparr>) of
                Inl e \<Rightarrow> stop_session (s\<lparr>incoming := rx2\<rparr>) log'
              | Inr s1 \<Rightarrow>
                  (case sendall response_bytes s1 of
                     Inl e \<Rightarrow> stop_session s1 log'
                   | Inr s2 \<Rightarrow> Some (True, s2, log'))))))))))"

partial_function (option) handle_client :: "llm_oracle \<Rightarrow> (byte list \<Rightarrow> request option)
    \<Rightarrow> (response \<Rightarrow> byte list) \<Rightarrow> client_socket \<times> call_log
    \<Rightarrow> (client_socket \<times> call_log) option" where
  "handle_client orc decode encode st =
     (case handle_request orc decode encode st of
        None \<Rightarrow> None
      | Some (connection_active, st') \<Rightarrow>
          if connection_active then handle_client orc decode encode st' else Some st')"

declare handle_client.simps [code]

section \<open>Stub oracles and sample inputs\<close>

text \<open>A deterministic stub that picks the first choice it is offered.\<close>

definition echo_first :: llm_oracle where
  "echo_first n prefix input_term choices =
     (case choices of [] \<Rightarrow> Failed | c # cs \<Rightarrow> Reply [actual_key prefix \<mapsto> AStr c])"

text \<open>A deterministic stub that gives the same answer whatever it is offered.\<close>

definition constant_oracle :: "string \<Rightarrow> llm_oracle" where
  "constant_oracle s n prefix input_term choices = Reply [actual_key prefix \<mapsto> AStr s]"

definition cell_type_request :: request where
  "cell_type_request =
     [''cell_type_requested'' \<mapsto> PyStr ''hek-293'',
      ''cell_type_list'' \<mapsto> PyList [''GM12878'', ''HEK293T'', ''K562'']]"

definition cell_type_response :: response where
  "cell_type_response =
     [''cell_type_actual'' \<mapsto> PyStr ''HEK293T'', ''matcher_version'' \<mapsto> PyStr ''2.0'']"

definition three_candidates :: "string list" where
  "three_candidates = [''a'', ''b'', ''c'']"

definition null_candidates :: "string list" where
  "null_candidates = [''NULL'', '''', ''K562'']"

definition empty_request :: request where
  "empty_request = Map.empty"

definition version_only :: response where
  "version_only = [''matcher_version'' \<mapsto> PyStr ''2.0'']"

definition empty_list_request :: request where
  "empty_list_request =
     [''cell_type_requested'' \<mapsto> PyStr ''hek-293'',
      ''cell_type_list'' \<mapsto> PyList [],
      ''species_requested'' \<mapsto> PyStr ''human'',
      ''species_list'' \<mapsto> PyList [''Homo sapiens'', ''Mus musculus'']]"

definition two_candidates :: "string list" where
  "two_candidates = [''a'', ''b'']"

definition forty_five_candidates :: "string list" where
  "forty_five_candidates =
     [''c01'', ''c02'', ''c03'', ''c04'', ''c05'', ''c06'', ''c07'', ''c08'', ''c09'', ''c10'',
      ''c11'', ''c12'', ''c13'', ''c14'', ''c15'', ''c16'', ''c17'', ''c18'', ''c19'', ''c20'',
      ''c21'', ''c22'', ''c23'', ''c24'', ''c25'', ''c26'', ''c27'', ''c28'', ''c29'', ''c30'',
      ''c31'', ''c32'', ''c33'', ''c34'', ''c35'', ''c36'', ''c37'', ''c38'', ''c39'', ''c40'',
      ''c41'', ''c42'', ''c43'', ''c44'', ''c45'']"

text \<open>The number of bytes the peer still delivers.\<close>

fun available :: "rx_event list \<Rightarrow> nat" where
  "available [] = 0"
| "available (Data seg # rest) = length seg + available rest"
| "available (Reset # rest) = available rest"

text \<open>A REST request with a candidate list and no query for one category, and a full pair for another.\<close>

definition list_without_query :: MatcherRequest where
  "list_without_query =
     \<lparr>cell_type_requested = None, cell_type_list = Some [''K562''],
      species_requested = Some ''human'', species_list = Some [''Homo sapiens'', ''Mus musculus''],
      binding_molecule_requested = None, binding_molecule_list = None,
      model_fields_set = {''cell_type_list'', ''species_requested'', ''species_list''}\<rparr>"

text \<open>A REST request with a query and no candidate list.\<close>

definition query_without_list :: MatcherRequest where
  "query_without_list =
     \<lparr>cell_type_requested = Some ''hek-293'', cell_type_list = None,
      species_requested = None, species_list = None,
      binding_molecule_requested = None, binding_molecule_list = None,
      model_fields_set = {''cell_type_requested''}\<rparr>"

text \<open>A REST request with no field at all.\<close>

definition no_fields :: MatcherRequest where
  "no_fields =
     \<lparr>cell_type_requested = None, cell_type_list = None,
      species_requested = None, species_list = None,
      binding_molecule_requested = None, binding_molecule_list = None,
      model_fields_set = {}\<rparr>"

text \<open>
  Stubs for the JSON layer of the TCP session: the two bytes \<^verbatim>\<open>{}\<close> decode to the empty
  document, and a response is encoded as the bytes of its version string.
\<close>

definition decode_braces :: "byte list \<Rightarrow> request option" where
  "decode_braces bs = (if bs = [123, 125] then Some Map.empty else None)"

definition encode_version :: "response \<Rightarrow> byte list" where
  "encode_version response_data =
     (case response_data ''matcher_version'' of
        Some (PyStr v) \<Rightarrow> map (\<lambda>c. of_nat (of_char c)) v
      | _ \<Rightarrow> [])"

text \<open>A peer that sends one frame holding \<^verbatim>\<open>{}\<close> and closes.\<close>

definition empty_document_socket :: client_socket where
  "empty_document_socket =
     \<lparr>incoming = [Data [0, 0, 0, 2, 123, 125]], outgoing = [], peer_reading = True, closed = 0\<rparr>"

text \<open>A peer that announces 10 bytes, sends 5 and closes.\<close>

definition short_payload_socket :: client_socket where
  "short_payload_socket =
     \<lparr>incoming = [Data [0, 0, 0, 10], Data [1, 2, 3, 4, 5]], outgoing = [],
      peer_reading = True, closed = 0\<rparr>"


section \<open>Arithmetic of chunk counts\<close>

lemma ceil_div_pos:
  assumes "0 < k" "0 < n"
  shows "ceil_div n k = Suc ((n - 1) div k)"
proof -
  have "k \<le> n + k - 1" using assms by arith
  then have "(n + k - 1) div k = Suc ((n + k - 1 - k) div k)"
    using assms(1) by (simp add: le_div_geq)
  moreover have "n + k - 1 - k = n - 1" using assms by arith
  ultimately show ?thesis by (simp add: ceil_div_def)
qed

lemma ceil_div_shift:
  assumes "0 < k" "0 < n"
  shows "ceil_div (n - k) k = (n - 1) div k"
proof (cases "k \<le> n")
  case True
  then have "n - k + k - 1 = n - 1" by arith
  then show ?thesis by (simp add: ceil_div_def)
next
  case False
  then have "n - k = 0" "n - 1 < k" by arith+
  then show ?thesis using assms(1) by (simp add: ceil_div_def)
qed

lemma ceil_div_step:
  "0 < k \<Longrightarrow> 0 < n \<Longrightarrow> ceil_div n k = Suc (ceil_div (n - k) k)"
  by (simp add: ceil_div_pos ceil_div_shift)

lemma ceil_div_zero: "0 < k \<Longrightarrow> ceil_div 0 k = 0"
  by (simp add: ceil_div_def)

lemma ceil_div_le: assumes "0 < k" shows "ceil_div n k \<le> n"
proof (cases "n = 0")
  case True
  then show ?thesis using assms by (simp add: ceil_div_def)
next
  case False
  have a: "(n - 1) div k \<le> n - 1" by (rule div_le_dividend)
  have b: "ceil_div n k = Suc ((n - 1) div k)" using False assms by (simp add: ceil_div_pos)
  show ?thesis unfolding b using a False by arith
qed

lemma ceil_div_less: assumes "2 \<le> k" "k < n" shows "ceil_div n k < n"
proof -
  have a: "(n - 1) div k < n - 1" using assms by (intro div_less_dividend) auto
  have b: "ceil_div n k = Suc ((n - 1) div k)" using assms by (simp add: ceil_div_pos)
  show ?thesis unfolding b using a by arith
qed

lemma ceil_div_one: "0 < n \<Longrightarrow> n \<le> k \<Longrightarrow> ceil_div n k = 1"
  by (simp add: ceil_div_pos)

section \<open>Chunks\<close>

lemma chunks_of_Nil: "chunks_of k [] = []"
  by (simp add: chunks_of.simps)

lemma chunks_of_step:
  "0 < k \<Longrightarrow> xs \<noteq> [] \<Longrightarrow> chunks_of k xs = take k xs # chunks_of k (drop k xs)"
  by (subst chunks_of.simps) simp

lemma concat_chunks_of: "0 < k \<Longrightarrow> concat (chunks_of k xs) = xs"
proof (induction k xs rule: chunks_of.induct)
  case (1 k xs)
  show ?case
  proof (cases "xs = []")
    case True
    then show ?thesis by (simp add: chunks_of_Nil)
  next
    case False
    with 1 show ?thesis by (simp add: chunks_of_step)
  qed
qed

lemma chunks_of_bounds:
  "c \<in> set (chunks_of k xs) \<Longrightarrow> c \<noteq> [] \<and> length c \<le> k \<and> set c \<subseteq> set xs"
proof (induction k xs rule: chunks_of.induct)
  case (1 k xs)
  show ?case
  proof (cases "k = 0 \<or> xs = []")
    case True
    with 1(2) show ?thesis by (simp add: chunks_of.simps)
  next
    case False
    with 1(2) have "c = take k xs \<or> c \<in> set (chunks_of k (drop k xs))"
      by (simp add: chunks_of_step)
    then show ?thesis
    proof
      assume "c = take k xs"
      with False show ?thesis by (auto dest: in_set_takeD)
    next
      assume "c \<in> set (chunks_of k (drop k xs))"
      with 1(1) False have "c \<noteq> [] \<and> length c \<le> k \<and> set c \<subseteq> set (drop k xs)" by blast
      then show ?thesis by (auto dest: in_set_dropD)
    qed
  qed
qed

lemma length_chunks_of: "0 < k \<Longrightarrow> length (chunks_of k xs) = ceil_div (length xs) k"
proof (induction k xs rule: chunks_of.induct)
  case (1 k xs)
  show ?case
  proof (cases "xs = []")
    case True
    with 1(2) show ?thesis by (simp add: chunks_of_Nil ceil_div_zero)
  next
    case False
    with 1 have IH: "length (chunks_of k (drop k xs)) = ceil_div (length xs - k) k" by simp
    have "length (chunks_of k xs) = Suc (ceil_div (length xs - k) k)"
      using False 1(2) IH by (simp add: chunks_of_step)
    also have "\<dots> = ceil_div (length xs) k"
      using False 1(2) by (simp add: ceil_div_step)
    finally show ?thesis .
  qed
qed

section \<open>One chunk, one round\<close>

lemma process_chunk_log: "snd (process_chunk orc p q chunk (cs, log)) = log @ [chunk]"
  by (simp add: process_chunk_def invoke_def Let_def split: llm_reply.split answer.split)

lemma process_chunk_champions:
  "fst (process_chunk orc p q chunk (cs, log)) = cs \<or>
   (\<exists>s. fst (process_chunk orc p q chunk (cs, log)) = cs @ [s]
        \<and> s \<in> set chunk \<and> s \<noteq> [] \<and> s \<noteq> ''NULL'')"
  by (auto simp: process_chunk_def invoke_def Let_def split: llm_reply.split answer.split)

lemma process_chunks_log:
  "snd (process_chunks orc p q chunks st) = snd st @ chunks"
proof (induction chunks arbitrary: st)
  case Nil
  show ?case by simp
next
  case (Cons c chunks)
  obtain cs log where st: "st = (cs, log)" by (cases st)
  show ?case using Cons [of "process_chunk orc p q c st"]
    by (simp add: st process_chunk_log)
qed

lemma process_chunks_length:
  "length (fst (process_chunks orc p q chunks st)) \<le> length (fst st) + length chunks"
proof (induction chunks arbitrary: st)
  case Nil
  show ?case by simp
next
  case (Cons c chunks)
  obtain cs log where st: "st = (cs, log)" by (cases st)
  have "length (fst (process_chunk orc p q c st)) \<le> Suc (length cs)"
    using process_chunk_champions [of orc p q c cs log] by (auto simp: st)
  with Cons [of "process_chunk orc p q c st"] show ?case by (simp add: st)
qed

lemma process_chunks_members:
  "s \<in> set (fst (process_chunks orc p q chunks st)) \<Longrightarrow>
   s \<in> set (fst st) \<or> ((\<exists>c \<in> set chunks. s \<in> set c) \<and> s \<noteq> [] \<and> s \<noteq> ''NULL'')"
proof (induction chunks arbitrary: st)
  case Nil
  then show ?case by simp
next
  case (Cons c chunks)
  obtain cs log where st: "st = (cs, log)" by (cases st)
  from Cons.prems have "s \<in> set (fst (process_chunks orc p q chunks (process_chunk orc p q c st)))"
    by simp
  from Cons.IH [OF this]
  have "s \<in> set (fst (process_chunk orc p q c st))
        \<or> ((\<exists>c \<in> set chunks. s \<in> set c) \<and> s \<noteq> [] \<and> s \<noteq> ''NULL'')" .
  then show ?case
  proof
    assume "s \<in> set (fst (process_chunk orc p q c st))"
    then show ?thesis using process_chunk_champions [of orc p q c cs log] by (auto simp: st)
  next
    assume "(\<exists>c \<in> set chunks. s \<in> set c) \<and> s \<noteq> [] \<and> s \<noteq> ''NULL''"
    then show ?thesis by auto
  qed
qed

lemma set_unique_sorted: "set (unique_sorted xs) = set xs"
  by (simp add: unique_sorted_def)

lemma length_unique_sorted: "length (unique_sorted xs) \<le> length xs"
  by (simp add: unique_sorted_def length_remdups_leq)

lemma distinct_unique_sorted: "distinct (unique_sorted xs)"
  by (simp add: unique_sorted_def)

lemma sorted_unique_sorted: "sorted (unique_sorted xs)"
  by (simp add: unique_sorted_def)

section \<open>Rounds\<close>

lemma play_round_zero: "play_round orc p q 0 xs log = Inl ValueError"
  by (simp add: play_round_def split_chunks_def)

lemma play_round_neg: "K < 0 \<Longrightarrow> play_round orc p q K xs log = Inr ([], log)"
  by (simp add: play_round_def split_chunks_def unique_sorted_def)

lemma play_round_pos:
  assumes "0 < K"
  shows "play_round orc p q K xs log =
           Inr (unique_sorted (fst (process_chunks orc p q (chunks_of (nat K) xs) ([], log))),
                log @ chunks_of (nat K) xs)"
proof -
  obtain cs log' where r: "process_chunks orc p q (chunks_of (nat K) xs) ([], log) = (cs, log')"
    by (cases "process_chunks orc p q (chunks_of (nat K) xs) ([], log)")
  have "log' = log @ chunks_of (nat K) xs"
    using process_chunks_log [of orc p q "chunks_of (nat K) xs" "([], log)"] by (simp add: r)
  then show ?thesis using assms by (simp add: play_round_def split_chunks_def r)
qed

lemma play_round_total: "K \<noteq> 0 \<Longrightarrow> \<exists>st. play_round orc p q K xs log = Inr st"
  by (cases "0 < K") (simp_all add: play_round_pos play_round_neg)

lemma play_round_members:
  assumes "play_round orc p q K xs log = Inr (uc, log')"
  shows "set uc \<subseteq> set xs" and "[] \<notin> set uc" and "''NULL'' \<notin> set uc"
    and "distinct uc" and "sorted uc"
proof -
  have K: "K \<noteq> 0" using assms by (auto simp: play_round_zero)
  have m: "s \<in> set xs \<and> s \<noteq> [] \<and> s \<noteq> ''NULL''" if "s \<in> set uc" for s
  proof (cases "0 < K")
    case True
    then have "uc = unique_sorted (fst (process_chunks orc p q (chunks_of (nat K) xs) ([], log)))"
      using assms by (simp add: play_round_pos)
    with that have "s \<in> set (fst (process_chunks orc p q (chunks_of (nat K) xs) ([], log)))"
      by (simp add: set_unique_sorted)
    from process_chunks_members [OF this]
    obtain c where "c \<in> set (chunks_of (nat K) xs)" "s \<in> set c" "s \<noteq> []" "s \<noteq> ''NULL''"
      by auto
    then show ?thesis using chunks_of_bounds [of c "nat K" xs] by auto
  next
    case False
    with K have "K < 0" by simp
    then have "uc = []" using assms by (simp add: play_round_neg)
    with that show ?thesis by simp
  qed
  show "set uc \<subseteq> set xs" using m by blast
  show "[] \<notin> set uc" using m by blast
  show "''NULL'' \<notin> set uc" using m by blast
  have "uc = [] \<or> (\<exists>ys. uc = unique_sorted ys)"
    using assms K by (cases "0 < K") (auto simp: play_round_pos play_round_neg)
  then show "distinct uc" and "sorted uc"
    by (auto simp: distinct_unique_sorted sorted_unique_sorted)
qed

lemma play_round_length:
  assumes "0 < K" and "play_round orc p q K xs log = Inr (uc, log')"
  shows "length uc \<le> ceil_div (length xs) (nat K)"
    and "log' = log @ chunks_of (nat K) xs"
    and "length log' = length log + ceil_div (length xs) (nat K)"
proof -
  let ?r = "process_chunks orc p q (chunks_of (nat K) xs) ([], log)"
  have uc: "uc = unique_sorted (fst ?r)" and log': "log' = log @ chunks_of (nat K) xs"
    using assms by (simp_all add: play_round_pos)
  have "length uc \<le> length (fst ?r)" by (simp add: uc length_unique_sorted)
  also have "\<dots> \<le> length (chunks_of (nat K) xs)"
    using process_chunks_length [of orc p q "chunks_of (nat K) xs" "([], log)"] by simp
  also have "\<dots> = ceil_div (length xs) (nat K)" using assms(1) by (simp add: length_chunks_of)
  finally show "length uc \<le> ceil_div (length xs) (nat K)" .
  show "log' = log @ chunks_of (nat K) xs" by (rule log')
  show "length log' = length log + ceil_div (length xs) (nat K)"
    using assms(1) by (simp add: log' length_chunks_of)
qed

section \<open>The championship loop\<close>

lemma championship_sound_aux:
  assumes "championship orc p q K st = Some r"
  shows "\<forall>st'. r = Inr st' \<longrightarrow> (\<exists>counts. championship_rounds orc p q K st counts st')"
proof (rule championship.raw_induct
    [where P = "\<lambda>orc p q K st r. \<forall>st'. r = Inr st'
                  \<longrightarrow> (\<exists>counts. championship_rounds orc p q K st counts st')"], goal_cases)
  case (1 f orc p q K st r)
  show ?case
  proof (cases "K < int (length (fst st))")
    case False
    with 1(2) have "r = Inr st" by simp
    with False show ?thesis by (auto intro: championship_rounds.exit_loop)
  next
    case True
    show ?thesis
    proof (cases "play_round orc p q K (fst st) (snd st)")
      case (Inl e)
      with True 1(2) show ?thesis by auto
    next
      case (Inr st1)
      with True 1(2) have "f orc p q K st1 = Some r" by simp
      from 1(1) [OF this] True Inr show ?thesis
        by (blast intro: championship_rounds.next_round)
    qed
  qed
next
  case 2
  show ?case by (rule assms)
qed

lemma championship_sound:
  "championship orc p q K st = Some (Inr st')
    \<Longrightarrow> \<exists>counts. championship_rounds orc p q K st counts st'"
  using championship_sound_aux [of orc p q K st "Inr st'"] by simp

lemma championship_complete:
  "championship_rounds orc p q K st counts st' \<Longrightarrow> championship orc p q K st = Some (Inr st')"
proof (induction rule: championship_rounds.induct)
  case (exit_loop st)
  then show ?case by (subst championship.simps) simp
next
  case (next_round st st1 counts st')
  then show ?case by (subst championship.simps) simp
qed

lemma championship_rounds_exit:
  "championship_rounds orc p q K st counts st' \<Longrightarrow>
     \<not> K < int (length (fst st')) \<and> set (fst st') \<subseteq> set (fst st)
     \<and> counts \<noteq> [] \<and> hd counts = length (fst st) \<and> last counts = length (fst st')
     \<and> (\<forall>c \<in> set (butlast counts). K < int c)"
proof (induction rule: championship_rounds.induct)
  case (exit_loop st)
  then show ?case by simp
next
  case (next_round st st1 counts st')
  obtain uc1 log1 where st1: "st1 = (uc1, log1)" by (cases st1)
  have "set uc1 \<subseteq> set (fst st)"
    using next_round(2) play_round_members(1) [of orc p q K "fst st" "snd st" uc1 log1]
    by (simp add: st1)
  with next_round show ?case by (auto simp: st1)
qed

lemma championship_rounds_log:
  "championship_rounds orc p q K st counts st' \<Longrightarrow> 0 < K \<Longrightarrow>
     length (snd st') = length (snd st)
        + sum_list (map (\<lambda>c. ceil_div c (nat K)) (butlast counts))"
proof (induction rule: championship_rounds.induct)
  case (exit_loop st)
  then show ?case by simp
next
  case (next_round st st1 counts st')
  obtain uc1 log1 where st1: "st1 = (uc1, log1)" by (cases st1)
  have a: "length log1 = length (snd st) + ceil_div (length (fst st)) (nat K)"
    using next_round(2,5) play_round_length(3) [of K orc p q "fst st" "snd st" uc1 log1]
    by (simp add: st1)
  have b: "counts \<noteq> []" using championship_rounds_exit [OF next_round(3)] by simp
  show ?case using next_round(4) [OF next_round(5)] a b by (simp add: st1)
qed

lemma championship_rounds_invariant:
  "championship_rounds orc p q K st counts st' \<Longrightarrow> [] \<notin> set (fst st) \<Longrightarrow> ''NULL'' \<notin> set (fst st)
     \<Longrightarrow> [] \<notin> set (fst st') \<and> ''NULL'' \<notin> set (fst st')"
  using championship_rounds_exit [of orc p q K st counts st'] by blast

lemma championship_terminates:
  assumes "2 \<le> K"
  shows "\<exists>counts st'. championship_rounds orc p q K st counts st'"
proof (induction "length (fst st)" arbitrary: st rule: less_induct)
  case less
  show ?case
  proof (cases "K < int (length (fst st))")
    case False
    then show ?thesis by (blast intro: championship_rounds.exit_loop)
  next
    case True
    obtain uc1 log1 where r: "play_round orc p q K (fst st) (snd st) = Inr (uc1, log1)"
      using play_round_total [of K orc p q "fst st" "snd st"] assms by auto
    have "length uc1 \<le> ceil_div (length (fst st)) (nat K)"
      using play_round_length(1) [OF _ r] assms by simp
    also have "\<dots> < length (fst st)"
      using assms True by (intro ceil_div_less) auto
    finally have "length (fst (uc1, log1)) < length (fst st)" by simp
    from less [OF this] obtain counts st' where "championship_rounds orc p q K (uc1, log1) counts st'"
      by blast
    with True r show ?thesis by (blast intro: championship_rounds.next_round)
  qed
qed

section \<open>The final decision\<close>

lemma final_decision_none: "final_decision orc p q [] log = (''NULL'', log)"
  by (simp add: final_decision_def)

lemma final_decision_single: "final_decision orc p q [w] log = (w, log)"
  by (simp add: final_decision_def)

lemma final_decision_many:
  assumes "2 \<le> length uc"
  shows "final_decision orc p q uc log =
           ((case orc (length log) p q uc of
               Failed \<Rightarrow> ''NULL''
             | Reply response_json \<Rightarrow>
                 (case get_match response_json (actual_key p) of
                    AStr s \<Rightarrow> if s \<in> set uc then s else ''NULL''
                  | ANonStr b \<Rightarrow> ''NULL'')),
            log @ [uc])"
  using assms
  by (simp add: final_decision_def invoke_def Let_def split: llm_reply.split answer.split)

lemma final_decision_member:
  "fst (final_decision orc p q uc log) = ''NULL'' \<or> fst (final_decision orc p q uc log) \<in> set uc"
proof -
  consider "uc = []" | w where "uc = [w]" | "2 \<le> length uc"
    by (cases uc rule: list.exhaust; cases "tl uc") auto
  then show ?thesis
  proof cases
    case 1
    then show ?thesis by (simp add: final_decision_none)
  next
    case 2
    then show ?thesis by (simp add: final_decision_single)
  next
    case 3
    then show ?thesis
      by (simp add: final_decision_many split: llm_reply.split answer.split)
  qed
qed

lemma final_decision_calls:
  "length (snd (final_decision orc p q uc log)) = length log + (if 2 \<le> length uc then 1 else 0)"
proof -
  consider "uc = []" | w where "uc = [w]" | "2 \<le> length uc"
    by (cases uc rule: list.exhaust; cases "tl uc") auto
  then show ?thesis
    by cases (simp_all add: final_decision_none final_decision_single final_decision_many)
qed

section \<open>The tournament\<close>

lemma tournament_zero: "tournament orc p q 0 xs log = Some (Inl ValueError)"
  by (simp add: tournament_def play_round_zero)

lemma tournament_runs:
  assumes "tournament orc p q K xs log = Some (Inr (fa, log'))"
  shows "\<exists>st0 counts uc log1. play_round orc p q K xs log = Inr st0
           \<and> championship_rounds orc p q K st0 counts (uc, log1)
           \<and> final_decision orc p q uc log1 = (fa, log')"
proof (cases "play_round orc p q K xs log")
  case (Inl e)
  with assms show ?thesis by (simp add: tournament_def)
next
  case (Inr st0)
  with assms obtain uc log1 where c: "championship orc p q K st0 = Some (Inr (uc, log1))"
    and f: "final_decision orc p q uc log1 = (fa, log')"
    by (auto simp: tournament_def split: option.splits sum.splits)
  from championship_sound [OF c] obtain counts
    where "championship_rounds orc p q K st0 counts (uc, log1)" by blast
  with Inr f show ?thesis by blast
qed

lemma tournament_of_rounds:
  assumes "play_round orc p q K xs log = Inr st0"
    and "championship_rounds orc p q K st0 counts (uc, log1)"
  shows "tournament orc p q K xs log = Some (Inr (final_decision orc p q uc log1))"
  using assms championship_complete [OF assms(2)] by (simp add: tournament_def)

lemma tournament_returns:
  assumes "2 \<le> K"
  shows "\<exists>fa log'. tournament orc p q K xs log = Some (Inr (fa, log'))"
proof -
  obtain st0 where r: "play_round orc p q K xs log = Inr st0"
    using play_round_total [of K orc p q xs log] assms by auto
  obtain counts uc log1 where "championship_rounds orc p q K st0 counts (uc, log1)"
    using championship_terminates [OF assms, of orc p q st0] by (metis surj_pair)
  from tournament_of_rounds [OF r this] show ?thesis by (metis surj_pair)
qed

lemma tournament_answer:
  assumes "tournament orc p q K xs log = Some (Inr (fa, log'))"
  shows "fa \<noteq> []" and "fa = ''NULL'' \<or> fa \<in> set xs"
proof -
  from tournament_runs [OF assms] obtain st0 counts uc log1
    where r: "play_round orc p q K xs log = Inr st0"
      and c: "championship_rounds orc p q K st0 counts (uc, log1)"
      and f: "final_decision orc p q uc log1 = (fa, log')" by blast
  obtain uc0 log0 where st0: "st0 = (uc0, log0)" by (cases st0)
  note m = play_round_members [OF r [unfolded st0]]
  have sub: "set uc \<subseteq> set uc0" using championship_rounds_exit [OF c] by (simp add: st0)
  have "fa = ''NULL'' \<or> fa \<in> set uc"
    using final_decision_member [of orc p q uc log1] by (simp add: f)
  with sub m show "fa \<noteq> []" and "fa = ''NULL'' \<or> fa \<in> set xs" by auto
qed

section \<open>The dispatcher\<close>

lemma process_prefix_absent:
  "request_data (requested_key p) = None \<or> request_data (list_key p) = None
    \<Longrightarrow> process_prefix orc K request_data p st = Some (Inr st)"
  by (cases st) (auto simp: process_prefix_def split: option.splits)

lemma process_prefix_empty:
  "request_data (requested_key p) = Some input_term \<Longrightarrow>
   request_data (list_key p) = Some choices_list \<Longrightarrow>
   \<not> truthy input_term \<or> \<not> truthy choices_list \<Longrightarrow>
   process_prefix orc K request_data p (response_data, log)
     = Some (Inr (response_data(actual_key p \<mapsto> PyNone), log))"
  by (auto simp: process_prefix_def)

lemma process_prefix_match:
  "request_data (requested_key p) = Some input_term \<Longrightarrow>
   request_data (list_key p) = Some choices_list \<Longrightarrow>
   truthy input_term \<Longrightarrow> truthy choices_list \<Longrightarrow>
   process_prefix orc K request_data p (response_data, log)
     = (case as_choices choices_list of
          Inl e \<Rightarrow> Some (Inl e)
        | Inr choices \<Rightarrow>
            (case tournament orc p input_term K choices log of
               None \<Rightarrow> None
             | Some (Inl e) \<Rightarrow> Some (Inl e)
             | Some (Inr (final_answer, log')) \<Rightarrow>
                 Some (Inr (response_data(actual_key p \<mapsto> PyStr final_answer), log'))))"
  by (simp add: process_prefix_def)


lemma process_prefix_cases:
  assumes "process_prefix orc K request_data p (response_data, log) = Some (Inr (resp', log'))"
  shows "(resp' = response_data \<and> log' = log
            \<and> (request_data (requested_key p) = None \<or> request_data (list_key p) = None))
       \<or> (resp' = response_data(actual_key p \<mapsto> PyNone) \<and> log' = log)
       \<or> (\<exists>input_term choices_list choices fa.
             request_data (requested_key p) = Some input_term
           \<and> request_data (list_key p) = Some choices_list
           \<and> as_choices choices_list = Inr choices
           \<and> tournament orc p input_term K choices log = Some (Inr (fa, log'))
           \<and> resp' = response_data(actual_key p \<mapsto> PyStr fa))"
proof (cases "request_data (requested_key p) = None \<or> request_data (list_key p) = None")
  case True
  with assms show ?thesis by (simp add: process_prefix_absent)
next
  case False
  then obtain input_term choices_list
    where k: "request_data (requested_key p) = Some input_term"
      "request_data (list_key p) = Some choices_list" by auto
  show ?thesis
  proof (cases "truthy input_term \<and> truthy choices_list")
    case False
    with assms k show ?thesis by (auto simp: process_prefix_empty)
  next
    case True
    with assms k show ?thesis
      by (auto simp: process_prefix_match split: option.splits sum.splits)
  qed
qed

lemma process_prefix_terminates:
  assumes "2 \<le> K"
  shows "\<exists>r. process_prefix orc K request_data p st = Some r"
proof -
  obtain response_data log where st: "st = (response_data, log)" by (cases st)
  show ?thesis
  proof (cases "request_data (requested_key p) = None \<or> request_data (list_key p) = None")
    case True
    then show ?thesis by (simp add: process_prefix_absent)
  next
    case False
    then obtain input_term choices_list
      where k: "request_data (requested_key p) = Some input_term"
        "request_data (list_key p) = Some choices_list" by auto
    show ?thesis
    proof (cases "truthy input_term \<and> truthy choices_list")
      case False
      with k show ?thesis by (auto simp: st process_prefix_empty)
    next
      case True
      show ?thesis
      proof (cases "as_choices choices_list")
        case (Inl e)
        with True k show ?thesis by (simp add: st process_prefix_match)
      next
        case (Inr choices)
        obtain fa log' where
          "tournament orc p input_term K choices log = Some (Inr (fa, log'))"
          using tournament_returns [OF assms] by blast
        with True k Inr show ?thesis by (simp add: st process_prefix_match)
      qed
    qed
  qed
qed


lemma actual_key_inject: "actual_key p = actual_key p' \<longleftrightarrow> p = p'"
  by (simp add: actual_key_def)

lemma actual_key_not_version: "actual_key p \<noteq> ''matcher_version''"
proof
  assume "actual_key p = ''matcher_version''"
  then have "last (actual_key p) = last ''matcher_version''" by simp
  then show False by (simp add: actual_key_def)
qed

lemma process_prefix_other_key:
  assumes "process_prefix orc K request_data p (response_data, log) = Some (Inr (resp', log'))"
    and "p' \<noteq> p"
  shows "resp' (actual_key p') = response_data (actual_key p')"
  using process_prefix_cases [OF assms(1)] assms(2) by (auto simp: actual_key_inject)

lemma process_prefixes_other_key:
  "process_prefixes orc K request_data ps (response_data, log) = Some (Inr (resp', log'))
    \<Longrightarrow> p' \<notin> set ps \<Longrightarrow> resp' (actual_key p') = response_data (actual_key p')"
proof (induction ps arbitrary: response_data log)
  case Nil
  then show ?case by simp
next
  case (Cons p ps)
  from Cons.prems(1) obtain r1 l1
    where a: "process_prefix orc K request_data p (response_data, log) = Some (Inr (r1, l1))"
      and b: "process_prefixes orc K request_data ps (r1, l1) = Some (Inr (resp', log'))"
    by (auto split: option.splits sum.splits)
  have "resp' (actual_key p') = r1 (actual_key p')" using Cons.IH [OF b] Cons.prems(2) by simp
  also have "\<dots> = response_data (actual_key p')"
    using process_prefix_other_key [OF a, of p'] Cons.prems(2) by simp
  finally show ?case .
qed

lemma process_prefixes_key:
  "process_prefixes orc K request_data ps (response_data, log) = Some (Inr (resp', log'))
    \<Longrightarrow> p \<in> set ps \<Longrightarrow> distinct ps
    \<Longrightarrow> \<exists>r0 l0 r1 l1. process_prefix orc K request_data p (r0, l0) = Some (Inr (r1, l1))
          \<and> r0 (actual_key p) = response_data (actual_key p)
          \<and> resp' (actual_key p) = r1 (actual_key p)"
proof (induction ps arbitrary: response_data log)
  case Nil
  then show ?case by simp
next
  case (Cons p0 ps)
  from Cons.prems(1) obtain r1 l1
    where a: "process_prefix orc K request_data p0 (response_data, log) = Some (Inr (r1, l1))"
      and b: "process_prefixes orc K request_data ps (r1, l1) = Some (Inr (resp', log'))"
    by (auto split: option.splits sum.splits)
  show ?case
  proof (cases "p = p0")
    case True
    with Cons.prems(3) have "p \<notin> set ps" by simp
    from process_prefixes_other_key [OF b this] a True show ?thesis by auto
  next
    case False
    with Cons.prems have "p \<in> set ps" "distinct ps" by auto
    from Cons.IH [OF b this] obtain r0' l0' r1' l1'
      where "process_prefix orc K request_data p (r0', l0') = Some (Inr (r1', l1'))"
        "r0' (actual_key p) = r1 (actual_key p)" "resp' (actual_key p) = r1' (actual_key p)"
      by blast
    moreover have "r1 (actual_key p) = response_data (actual_key p)"
      using process_prefix_other_key [OF a, of p] False by simp
    ultimately show ?thesis by auto
  qed
qed

section \<open>Evaluating the model on concrete inputs\<close>

lemmas eval_defs = process_request_with_chunking_def possible_prefixes_def process_prefix_def
  requested_key_def list_key_def actual_key_def tournament_def play_round_def split_chunks_def
  chunks_of.simps process_chunk_def invoke_def get_match_def unique_sorted_def championship.simps
  final_decision_def MATCHER_VERSION_def

lemma championship_rounds_origin:
  "championship_rounds orc p q K st counts st' \<Longrightarrow>
     st' = st \<or> (\<exists>xs log. play_round orc p q K xs log = Inr st')"
  by (induction rule: championship_rounds.induct) auto


lemma process_prefixes_terminates:
  assumes "2 \<le> K"
  shows "\<exists>r. process_prefixes orc K request_data ps st = Some r"
proof (induction ps arbitrary: st)
  case Nil
  show ?case by simp
next
  case (Cons p ps)
  obtain r where r: "process_prefix orc K request_data p st = Some r"
    using process_prefix_terminates [OF assms] by blast
  show ?case
  proof (cases r)
    case (Inl e)
    with r show ?thesis by simp
  next
    case (Inr st1)
    with r Cons [of st1] show ?thesis by simp
  qed
qed

lemma process_prefixes_absent:
  "\<forall>p \<in> set ps. request_data (requested_key p) = None \<or> request_data (list_key p) = None
    \<Longrightarrow> process_prefixes orc K request_data ps st = Some (Inr st)"
  by (induction ps arbitrary: st) (simp_all add: process_prefix_absent)


section \<open>The claims\<close>

text \<open>
  C1. In round 0, in the championship rounds and in the final round, a value returned by
  the oracle is accepted only when it is, as a string, a member of the choices offered in
  that call; anything else is discarded. So every category result of the response that is
  a string other than \<^verbatim>\<open>"NULL"\<close> is a member of that category's candidate list.
\<close>

theorem accepted_winner_is_member:
  "set (fst (process_chunk orc prefix input_term chunk (chunk_champions, log)))
      \<subseteq> set chunk_champions \<union> set chunk
   \<and> (fst (final_decision orc prefix input_term unique_champions log) = ''NULL''
        \<or> fst (final_decision orc prefix input_term unique_champions log) \<in> set unique_champions)
   \<and> (process_request_with_chunking orc request_data K log = Some (Inr (response_data, log'))
        \<longrightarrow> response_data (actual_key prefix) = Some (PyStr s) \<longrightarrow> s \<noteq> ''NULL''
        \<longrightarrow> (\<exists>choices_list choices. request_data (list_key prefix) = Some choices_list
              \<and> as_choices choices_list = Inr choices \<and> s \<in> set choices))"
proof (intro conjI impI)
  show "set (fst (process_chunk orc prefix input_term chunk (chunk_champions, log)))
          \<subseteq> set chunk_champions \<union> set chunk"
    using process_chunk_champions [of orc prefix input_term chunk chunk_champions log] by auto
  show "fst (final_decision orc prefix input_term unique_champions log) = ''NULL''
        \<or> fst (final_decision orc prefix input_term unique_champions log) \<in> set unique_champions"
    by (rule final_decision_member)
next
  assume run: "process_request_with_chunking orc request_data K log = Some (Inr (response_data, log'))"
    and res: "response_data (actual_key prefix) = Some (PyStr s)" and s: "s \<noteq> ''NULL''"
  from run obtain r where
    ps: "process_prefixes orc K request_data possible_prefixes (Map.empty, log) = Some (Inr (r, log'))"
    and rd: "response_data = r(''matcher_version'' \<mapsto> PyStr MATCHER_VERSION)"
    by (auto simp: process_request_with_chunking_def split: option.splits sum.splits)
  have r: "r (actual_key prefix) = Some (PyStr s)"
    using res by (simp add: rd actual_key_not_version)
  have mem: "prefix \<in> set possible_prefixes"
  proof (rule ccontr)
    assume "prefix \<notin> set possible_prefixes"
    from process_prefixes_other_key [OF ps this] r show False by simp
  qed
  have "distinct possible_prefixes" by (simp add: possible_prefixes_def)
  from process_prefixes_key [OF ps mem this] obtain r0 l0 r1 l1
    where step: "process_prefix orc K request_data prefix (r0, l0) = Some (Inr (r1, l1))"
      and r0: "r0 (actual_key prefix) = None" and r1: "r (actual_key prefix) = r1 (actual_key prefix)"
    by auto
  from process_prefix_cases [OF step] r0 r1 r
  obtain input_term choices_list choices
    where "request_data (list_key prefix) = Some choices_list"
      and "as_choices choices_list = Inr choices"
      and "tournament orc prefix input_term K choices l0 = Some (Inr (s, l1))"
    by auto
  with tournament_answer(2) [of orc prefix input_term K choices l0 s l1] s
  show "\<exists>choices_list choices. request_data (list_key prefix) = Some choices_list
          \<and> as_choices choices_list = Inr choices \<and> s \<in> set choices" by auto
qed

theorem accepted_winner_is_member_witness:
  "process_request_with_chunking (constant_oracle ''HEK293T'') cell_type_request 20 []
      = Some (Inr (cell_type_response, [[''GM12878'', ''HEK293T'', ''K562'']]))
   \<and> cell_type_response (actual_key ''cell_type'') = Some (PyStr ''HEK293T'')
   \<and> ''HEK293T'' \<noteq> ''NULL''
   \<and> (\<exists>choices_list choices. cell_type_request (list_key ''cell_type'') = Some choices_list
         \<and> as_choices choices_list = Inr choices \<and> ''HEK293T'' \<in> set choices)"
proof -
  have run: "process_request_with_chunking (constant_oracle ''HEK293T'') cell_type_request 20 []
      = Some (Inr (cell_type_response, [[''GM12878'', ''HEK293T'', ''K562'']]))"
    by (simp add: eval_defs constant_oracle_def cell_type_request_def cell_type_response_def)
  have res: "cell_type_response (actual_key ''cell_type'') = Some (PyStr ''HEK293T'')"
    by (simp add: cell_type_response_def actual_key_def)
  have s: "''HEK293T'' \<noteq> ''NULL''" by simp
  from accepted_winner_is_member
    [of "constant_oracle ''HEK293T''" "''cell_type''" PyNone "[]" "[]" "[]" "[]"
        cell_type_request 20 cell_type_response "[[''GM12878'', ''HEK293T'', ''K562'']]" "''HEK293T''"]
    run res s
  show ?thesis by blast
qed

text \<open>
  C2. The final decision of a category tournament goes by cases on the deduplicated
  winner set left by the championship loop, which has at most \<open>list_chunk_size\<close> members:
  no winner gives \<^verbatim>\<open>"NULL"\<close>; exactly one winner is the result, with no further oracle
  call; two or more winners cost exactly one more call, offering the whole set, and a
  returned value that is not a member of that set gives \<^verbatim>\<open>"NULL"\<close>.
\<close>

theorem final_decision_by_cases:
  assumes "play_round orc prefix input_term K choices_list log = Inr st0"
    and "championship orc prefix input_term K st0 = Some (Inr (unique_champions, log1))"
  shows "tournament orc prefix input_term K choices_list log
           = Some (Inr (final_decision orc prefix input_term unique_champions log1))
     \<and> distinct unique_champions \<and> int (length unique_champions) \<le> K
     \<and> (unique_champions = [] \<longrightarrow>
          final_decision orc prefix input_term unique_champions log1 = (''NULL'', log1))
     \<and> (\<forall>w. unique_champions = [w] \<longrightarrow>
          final_decision orc prefix input_term unique_champions log1 = (w, log1))
     \<and> (2 \<le> length unique_champions \<longrightarrow>
          final_decision orc prefix input_term unique_champions log1 =
            ((case orc (length log1) prefix input_term unique_champions of
                Failed \<Rightarrow> ''NULL''
              | Reply response_json \<Rightarrow>
                  (case get_match response_json (actual_key prefix) of
                     AStr s \<Rightarrow> if s \<in> set unique_champions then s else ''NULL''
                   | ANonStr b \<Rightarrow> ''NULL'')),
             log1 @ [unique_champions]))"
proof -
  from championship_sound [OF assms(2)] obtain counts
    where rounds: "championship_rounds orc prefix input_term K st0 counts (unique_champions, log1)"
    by blast
  have t: "tournament orc prefix input_term K choices_list log
           = Some (Inr (final_decision orc prefix input_term unique_champions log1))"
    by (rule tournament_of_rounds [OF assms(1) rounds])
  have "\<exists>xs l. play_round orc prefix input_term K xs l = Inr (unique_champions, log1)"
    using championship_rounds_origin [OF rounds] assms(1) by auto
  then have d: "distinct unique_champions" by (auto dest: play_round_members(4))
  have b: "int (length unique_champions) \<le> K"
    using championship_rounds_exit [OF rounds] by simp
  show ?thesis
    using t d b
    by (auto simp: final_decision_none final_decision_single final_decision_many)
qed

theorem final_decision_by_cases_witness:
  "play_round echo_first ''species'' (PyStr ''q'') 2 three_candidates []
      = Inr ([''a'', ''c''], [[''a'', ''b''], [''c'']])
   \<and> championship echo_first ''species'' (PyStr ''q'') 2 ([''a'', ''c''], [[''a'', ''b''], [''c'']])
      = Some (Inr ([''a'', ''c''], [[''a'', ''b''], [''c'']]))
   \<and> tournament echo_first ''species'' (PyStr ''q'') 2 three_candidates []
      = Some (Inr (''a'', [[''a'', ''b''], [''c''], [''a'', ''c'']]))"
proof -
  have r: "play_round echo_first ''species'' (PyStr ''q'') 2 three_candidates []
      = Inr ([''a'', ''c''], [[''a'', ''b''], [''c'']])"
    by (simp add: eval_defs echo_first_def three_candidates_def)
  have c: "championship echo_first ''species'' (PyStr ''q'') 2 ([''a'', ''c''], [[''a'', ''b''], [''c'']])
      = Some (Inr ([''a'', ''c''], [[''a'', ''b''], [''c'']]))"
    by (simp add: championship.simps)
  have f: "final_decision echo_first ''species'' (PyStr ''q'') [''a'', ''c''] [[''a'', ''b''], [''c'']]
      = (''a'', [[''a'', ''b''], [''c''], [''a'', ''c'']])"
    by (simp add: eval_defs echo_first_def)
  from final_decision_by_cases [OF r c] r c show ?thesis by (simp only: f simp_thms)
qed

text \<open>
  C4. When a category's two keys are present and its query or its candidate list is empty
  (or \<^verbatim>\<open>None\<close>), the dispatcher records \<^verbatim>\<open>None\<close> under the category's \<^verbatim>\<open>_actual\<close> key, calls
  the oracle not at all for it, and goes on with the remaining categories; the request
  as a whole still returns its response, with that \<^verbatim>\<open>None\<close> in it.
\<close>

theorem empty_pair_records_none:
  assumes "request_data (requested_key prefix) = Some input_term"
    and "request_data (list_key prefix) = Some choices_list"
    and "\<not> truthy input_term \<or> \<not> truthy choices_list"
  shows "process_prefix orc K request_data prefix (response_data, log)
           = Some (Inr (response_data(actual_key prefix \<mapsto> PyNone), log))
     \<and> process_prefixes orc K request_data (prefix # prefixes) (response_data, log)
           = process_prefixes orc K request_data prefixes
               (response_data(actual_key prefix \<mapsto> PyNone), log)
     \<and> (prefix \<in> set possible_prefixes
          \<longrightarrow> process_request_with_chunking orc request_data K log0 = Some (Inr (final_response, log'))
          \<longrightarrow> final_response (actual_key prefix) = Some PyNone)"
proof (intro conjI impI)
  show step: "process_prefix orc K request_data prefix (response_data, log)
           = Some (Inr (response_data(actual_key prefix \<mapsto> PyNone), log))"
    for response_data log
    by (rule process_prefix_empty [OF assms])
  show "process_prefixes orc K request_data (prefix # prefixes) (response_data, log)
           = process_prefixes orc K request_data prefixes
               (response_data(actual_key prefix \<mapsto> PyNone), log)"
    by (simp add: step)
  assume mem: "prefix \<in> set possible_prefixes"
    and run: "process_request_with_chunking orc request_data K log0 = Some (Inr (final_response, log'))"
  from run obtain r where
    ps: "process_prefixes orc K request_data possible_prefixes (Map.empty, log0)
          = Some (Inr (r, log'))"
    and rd: "final_response = r(''matcher_version'' \<mapsto> PyStr MATCHER_VERSION)"
    by (auto simp: process_request_with_chunking_def split: option.splits sum.splits)
  have "distinct possible_prefixes" by (simp add: possible_prefixes_def)
  from process_prefixes_key [OF ps mem this] obtain r0 l0 r1 l1
    where "process_prefix orc K request_data prefix (r0, l0) = Some (Inr (r1, l1))"
      and "r (actual_key prefix) = r1 (actual_key prefix)"
    by auto
  then have "r (actual_key prefix) = Some PyNone" by (auto simp: step)
  then show "final_response (actual_key prefix) = Some PyNone"
    by (simp add: rd actual_key_not_version)
qed

theorem empty_pair_records_none_witness:
  "empty_list_request (requested_key ''cell_type'') = Some (PyStr ''hek-293'')
   \<and> empty_list_request (list_key ''cell_type'') = Some (PyList [])
   \<and> \<not> truthy (PyList [])
   \<and> ''cell_type'' \<in> set possible_prefixes
   \<and> process_request_with_chunking echo_first empty_list_request 20 []
       = Some (Inr ([''cell_type_actual'' \<mapsto> PyNone, ''species_actual'' \<mapsto> PyStr ''Homo sapiens'',
                     ''matcher_version'' \<mapsto> PyStr ''2.0''],
                    [[''Homo sapiens'', ''Mus musculus'']]))
   \<and> [''cell_type_actual'' \<mapsto> PyNone, ''species_actual'' \<mapsto> PyStr ''Homo sapiens'',
        ''matcher_version'' \<mapsto> PyStr ''2.0''] (actual_key ''cell_type'') = Some PyNone"
proof -
  have a: "empty_list_request (requested_key ''cell_type'') = Some (PyStr ''hek-293'')"
    by (simp add: empty_list_request_def requested_key_def)
  have b: "empty_list_request (list_key ''cell_type'') = Some (PyList [])"
    by (simp add: empty_list_request_def list_key_def)
  have c: "\<not> truthy (PyStr ''hek-293'') \<or> \<not> truthy (PyList [])" by simp
  have m: "''cell_type'' \<in> set possible_prefixes" by (simp add: possible_prefixes_def)
  have run: "process_request_with_chunking echo_first empty_list_request 20 []
       = Some (Inr ([''cell_type_actual'' \<mapsto> PyNone, ''species_actual'' \<mapsto> PyStr ''Homo sapiens'',
                     ''matcher_version'' \<mapsto> PyStr ''2.0''],
                    [[''Homo sapiens'', ''Mus musculus'']]))"
    by (simp add: eval_defs echo_first_def empty_list_request_def)
  from empty_pair_records_none [OF a b c, of echo_first 20 Map.empty "[]" "[]" "[]"
      "[''cell_type_actual'' \<mapsto> PyNone, ''species_actual'' \<mapsto> PyStr ''Homo sapiens'',
        ''matcher_version'' \<mapsto> PyStr ''2.0'']" "[[''Homo sapiens'', ''Mus musculus'']]"]
    a b c m run
  show ?thesis by simp
qed

text \<open>
  C9. A candidate equal to \<^verbatim>\<open>"NULL"\<close> or to the empty string is never returned as a match.
  In a chunk round an answer that is falsy or equal to \<^verbatim>\<open>"NULL"\<close> leaves the champions as
  they were; the unique champions after any round contain neither string; in the final
  round such an answer gives the sentinel \<^verbatim>\<open>"NULL"\<close>; and the answer of a tournament is never
  the empty string, and is either the sentinel or a candidate other than these two.
\<close>

theorem null_and_empty_never_win:
  "(orc (length log) prefix input_term chunk = Reply response_json
      \<longrightarrow> \<not> answer_truthy (get_match response_json (actual_key prefix))
          \<or> get_match response_json (actual_key prefix) = AStr ''NULL''
      \<longrightarrow> process_chunk orc prefix input_term chunk (chunk_champions, log)
            = (chunk_champions, log @ [chunk]))
   \<and> (play_round orc prefix input_term K candidates log = Inr (unique_champions, log')
      \<longrightarrow> [] \<notin> set unique_champions \<and> ''NULL'' \<notin> set unique_champions)
   \<and> (play_round orc prefix input_term K candidates log = Inr st0
      \<longrightarrow> championship orc prefix input_term K st0 = Some (Inr (last_champions, log1))
      \<longrightarrow> [] \<notin> set last_champions \<and> ''NULL'' \<notin> set last_champions
          \<and> (2 \<le> length last_champions
              \<longrightarrow> orc (length log1) prefix input_term last_champions = Reply final_json
              \<longrightarrow> get_match final_json (actual_key prefix) = AStr [] 
                  \<or> get_match final_json (actual_key prefix) = AStr ''NULL''
              \<longrightarrow> final_decision orc prefix input_term last_champions log1
                    = (''NULL'', log1 @ [last_champions])))
   \<and> (tournament orc prefix input_term K candidates log = Some (Inr (final_answer, log2))
      \<longrightarrow> final_answer \<noteq> []
          \<and> (final_answer = ''NULL'' \<or> final_answer \<in> set candidates - {[], ''NULL''}))"
proof (intro conjI impI)
  assume "orc (length log) prefix input_term chunk = Reply response_json"
    and "\<not> answer_truthy (get_match response_json (actual_key prefix))
          \<or> get_match response_json (actual_key prefix) = AStr ''NULL''"
  then show "process_chunk orc prefix input_term chunk (chunk_champions, log)
            = (chunk_champions, log @ [chunk])"
    by (auto simp: process_chunk_def invoke_def)
next
  assume "play_round orc prefix input_term K candidates log = Inr (unique_champions, log')"
  then show "[] \<notin> set unique_champions" and "''NULL'' \<notin> set unique_champions"
    by (rule play_round_members(2), rule play_round_members(3))
next
  assume r: "play_round orc prefix input_term K candidates log = Inr st0"
    and c: "championship orc prefix input_term K st0 = Some (Inr (last_champions, log1))"
  from championship_sound [OF c] obtain counts
    where rounds: "championship_rounds orc prefix input_term K st0 counts (last_champions, log1)"
    by blast
  have "\<exists>xs l. play_round orc prefix input_term K xs l = Inr (last_champions, log1)"
    using championship_rounds_origin [OF rounds] r by auto
  then show e: "[] \<notin> set last_champions" and n: "''NULL'' \<notin> set last_champions"
    by (auto dest: play_round_members(2) play_round_members(3))
  assume "2 \<le> length last_champions"
    and "orc (length log1) prefix input_term last_champions = Reply final_json"
    and "get_match final_json (actual_key prefix) = AStr []
          \<or> get_match final_json (actual_key prefix) = AStr ''NULL''"
  with e n show "final_decision orc prefix input_term last_champions log1
                    = (''NULL'', log1 @ [last_champions])"
    by (auto simp: final_decision_many)
next
  assume t: "tournament orc prefix input_term K candidates log = Some (Inr (final_answer, log2))"
  show "final_answer \<noteq> []" by (rule tournament_answer(1) [OF t])
  show "final_answer = ''NULL'' \<or> final_answer \<in> set candidates - {[], ''NULL''}"
    using tournament_answer [OF t] by auto
qed

theorem null_and_empty_never_win_witness:
  "play_round echo_first ''cell_type'' (PyStr ''q'') 1 null_candidates []
     = Inr ([''K562''], [[''NULL''], [''''], [''K562'']])
   \<and> championship echo_first ''cell_type'' (PyStr ''q'') 1 ([''K562''], [[''NULL''], [''''], [''K562'']])
     = Some (Inr ([''K562''], [[''NULL''], [''''], [''K562'']]))
   \<and> tournament echo_first ''cell_type'' (PyStr ''q'') 1 null_candidates []
     = Some (Inr (''K562'', [[''NULL''], [''''], [''K562'']]))
   \<and> echo_first (length ([]::call_log)) ''cell_type'' (PyStr ''q'') [''NULL'']
     = Reply [actual_key ''cell_type'' \<mapsto> AStr ''NULL'']
   \<and> process_chunk echo_first ''cell_type'' (PyStr ''q'') [''NULL''] ([], []) = ([], [[''NULL'']])
   \<and> [] \<notin> set [''K562''] \<and> ''NULL'' \<notin> set [''K562'']
   \<and> ''K562'' \<in> set null_candidates - {[], ''NULL''}"
proof -
  have r: "play_round echo_first ''cell_type'' (PyStr ''q'') 1 null_candidates []
     = Inr ([''K562''], [[''NULL''], [''''], [''K562'']])"
    by (simp add: eval_defs echo_first_def null_candidates_def)
  have c: "championship echo_first ''cell_type'' (PyStr ''q'') 1
             ([''K562''], [[''NULL''], [''''], [''K562'']])
     = Some (Inr ([''K562''], [[''NULL''], [''''], [''K562'']]))"
    by (simp add: championship.simps)
  have t: "tournament echo_first ''cell_type'' (PyStr ''q'') 1 null_candidates []
     = Some (Inr (''K562'', [[''NULL''], [''''], [''K562'']]))"
    by (simp add: eval_defs echo_first_def null_candidates_def)
  have o: "echo_first (length ([]::call_log)) ''cell_type'' (PyStr ''q'') [''NULL'']
     = Reply [actual_key ''cell_type'' \<mapsto> AStr ''NULL'']"
    by (simp add: echo_first_def)
  have g: "\<not> answer_truthy (get_match [actual_key ''cell_type'' \<mapsto> AStr ''NULL''] (actual_key ''cell_type''))
     \<or> get_match [actual_key ''cell_type'' \<mapsto> AStr ''NULL''] (actual_key ''cell_type'') = AStr ''NULL''"
    by (simp add: get_match_def)
  from null_and_empty_never_win
    [of echo_first "[]" "''cell_type''" "PyStr ''q''" "[''NULL'']"
        "[actual_key ''cell_type'' \<mapsto> AStr ''NULL'']" "[]" 1 null_candidates
        "[''K562'']" "[[''NULL''], [''''], [''K562'']]"
        "([''K562''], [[''NULL''], [''''], [''K562'']])" "[''K562'']"
        "[[''NULL''], [''''], [''K562'']]" Map.empty "''K562''" "[[''NULL''], [''''], [''K562'']]"]
    r c t o g
  show ?thesis by (simp add: null_candidates_def)
qed

lemma process_request_terminates:
  assumes "2 \<le> K"
  shows "\<exists>r. process_request_with_chunking orc request_data K log = Some r"
proof -
  obtain r where
    r: "process_prefixes orc K request_data possible_prefixes (Map.empty, log) = Some r"
    using process_prefixes_terminates [OF assms] by blast
  show ?thesis
  proof (cases r)
    case (Inl e)
    with r show ?thesis by (simp add: process_request_with_chunking_def)
  next
    case (Inr st)
    with r show ?thesis by (cases st) (simp add: process_request_with_chunking_def)
  qed
qed




section \<open>Chunk size and termination\<close>

lemma echo_first_round_of_two:
  "play_round echo_first p q 1 [''a'', ''b''] log = Inr ([''a'', ''b''], log @ [[''a''], [''b'']])"
  by (simp add: play_round_def split_chunks_def chunks_of.simps process_chunk_def invoke_def
      get_match_def unique_sorted_def echo_first_def)

lemma championship_chunk_size_one_loops:
  assumes "championship orc p q K st = Some r"
  shows "\<not> (orc = echo_first \<and> K = 1 \<and> fst st = [''a'', ''b''])"
proof (rule championship.raw_induct
    [where P = "\<lambda>orc p q K st r. \<not> (orc = echo_first \<and> K = 1 \<and> fst st = [''a'', ''b''])",
      OF _ assms], goal_cases)
  case (1 f orc p q K st r)
  show ?case
  proof
    assume a: "orc = echo_first \<and> K = 1 \<and> fst st = [''a'', ''b'']"
    then have "f orc p q K ([''a'', ''b''], snd st @ [[''a''], [''b'']]) = Some r"
      using 1(2) by (simp add: echo_first_round_of_two)
    from 1(1) [OF this] a show False by simp
  qed
qed

text \<open>
  C3, as stated, fails for chunk size 1: with the stub that picks the first choice, a
  round over two champions returns the same two champions, and the loop does not return.
\<close>

theorem chunk_size_one_counterexample:
  "play_round echo_first ''species'' (PyStr ''q'') 1 two_candidates []
     = Inr (two_candidates, [[''a''], [''b'']])
   \<and> championship echo_first ''species'' (PyStr ''q'') 1 (two_candidates, []) = None"
proof
  show "play_round echo_first ''species'' (PyStr ''q'') 1 two_candidates []
     = Inr (two_candidates, [[''a''], [''b'']])"
    by (simp add: two_candidates_def echo_first_round_of_two)
  show "championship echo_first ''species'' (PyStr ''q'') 1 (two_candidates, []) = None"
  proof (cases "championship echo_first ''species'' (PyStr ''q'') 1 (two_candidates, [])")
    case None
    then show ?thesis .
  next
    case (Some r)
    from championship_chunk_size_one_loops [OF this] show ?thesis
      by (simp add: two_candidates_def)
  qed
qed

text \<open>
  C3, amended. For every chunk size of two or more, every candidate list and every
  oracle: the unique champions of a round are among the candidates the round was given
  and no more numerous, and strictly fewer when the round was given more than
  \<open>list_chunk_size\<close> candidates, as every championship round is; so the championship loop
  returns.
\<close>

theorem championship_terminates_from_chunk_size_two:
  assumes "2 \<le> K"
  shows "(\<exists>unique_champions log'.
            play_round orc prefix input_term K candidates log = Inr (unique_champions, log')
          \<and> set unique_champions \<subseteq> set candidates
          \<and> length unique_champions \<le> length candidates
          \<and> (K < int (length candidates) \<longrightarrow> length unique_champions < length candidates))
     \<and> (\<exists>st'. championship orc prefix input_term K st = Some (Inr st'))"
proof
  obtain uc log' where r: "play_round orc prefix input_term K candidates log = Inr (uc, log')"
    using play_round_total [of K orc prefix input_term candidates log] assms by (metis not_numeral_le_zero surj_pair)
  have pos: "0 < K" using assms by simp
  have le: "length uc \<le> ceil_div (length candidates) (nat K)"
    by (rule play_round_length(1) [OF pos r])
  have "ceil_div (length candidates) (nat K) \<le> length candidates"
    using pos by (intro ceil_div_le) simp
  with le have a: "length uc \<le> length candidates" by simp
  have b: "length uc < length candidates" if "K < int (length candidates)"
  proof -
    have "ceil_div (length candidates) (nat K) < length candidates"
      using assms that by (intro ceil_div_less) auto
    with le show ?thesis by simp
  qed
  from r a b play_round_members(1) [OF r]
  show "\<exists>unique_champions log'.
            play_round orc prefix input_term K candidates log = Inr (unique_champions, log')
          \<and> set unique_champions \<subseteq> set candidates
          \<and> length unique_champions \<le> length candidates
          \<and> (K < int (length candidates) \<longrightarrow> length unique_champions < length candidates)"
    by blast
  from championship_terminates [OF assms, of orc prefix input_term st]
  show "\<exists>st'. championship orc prefix input_term K st = Some (Inr st')"
    by (blast dest: championship_complete)
qed

theorem championship_terminates_from_chunk_size_two_witness:
  "(2::int) \<le> 2
   \<and> (\<exists>unique_champions log'.
            play_round echo_first ''species'' (PyStr ''q'') 2 three_candidates []
              = Inr (unique_champions, log')
          \<and> set unique_champions \<subseteq> set three_candidates
          \<and> length unique_champions \<le> length three_candidates
          \<and> (2 < int (length three_candidates)
                \<longrightarrow> length unique_champions < length three_candidates))
   \<and> (\<exists>st'. championship echo_first ''species'' (PyStr ''q'') 2 (three_candidates, []) = Some (Inr st'))"
proof -
  have k: "(2::int) \<le> 2" by simp
  from championship_terminates_from_chunk_size_two
    [OF k, of echo_first "''species''" "PyStr ''q''" three_candidates "[]" "(three_candidates, [])"] k
  show ?thesis by simp
qed

section \<open>Counting oracle calls\<close>

lemma championship_rounds_single:
  "championship_rounds orc p q K st counts st' \<Longrightarrow> \<not> K < int (length (fst st))
     \<Longrightarrow> counts = [length (fst st)] \<and> st' = st"
  by (erule championship_rounds.cases) auto

lemma later_rounds_calls_append:
  assumes "0 < k" and "\<forall>c \<in> set cs. k < c" and "l \<le> k"
  shows "sum_list (map (\<lambda>c. if 2 \<le> c then ceil_div c k else 0) (cs @ [l]))
           = sum_list (map (\<lambda>c. ceil_div c k) cs) + (if 2 \<le> l then 1 else 0)"
proof -
  have a: "map (\<lambda>c. if 2 \<le> c then ceil_div c k else 0) cs = map (\<lambda>c. ceil_div c k) cs"
    using assms(1,2) by (intro map_cong) auto
  have b: "(if 2 \<le> l then ceil_div l k else 0) = (if 2 \<le> l then 1 else 0)"
    using assms(3) by (simp add: ceil_div_one)
  show ?thesis by (simp add: a b)
qed

lemma later_rounds_calls:
  assumes "0 < k" and "counts \<noteq> []" and "\<forall>c \<in> set (butlast counts). k < c"
    and "last counts \<le> k"
  shows "sum_list (map (\<lambda>c. if 2 \<le> c then ceil_div c k else 0) counts)
           = sum_list (map (\<lambda>c. ceil_div c k) (butlast counts))
             + (if 2 \<le> last counts then 1 else 0)"
  using later_rounds_calls_append [OF assms(1,3,4)] assms(2) by simp

text \<open>
  C7, as stated, fails when a round leaves one unique champion: the winner is then the
  result with no further call. Three candidates in chunks of two, with a stub that
  always answers \<^verbatim>\<open>"a"\<close>: round 0 costs two calls and leaves one champion, and the
  tournament ends after these two calls, where the stated sum gives three.
\<close>

theorem spec_call_count_counterexample:
  "play_round (constant_oracle ''a'') ''species'' (PyStr ''q'') 2 three_candidates []
     = Inr ([''a''], [[''a'', ''b''], [''c'']])
   \<and> championship (constant_oracle ''a'') ''species'' (PyStr ''q'') 2
        ([''a''], [[''a'', ''b''], [''c'']])
     = Some (Inr ([''a''], [[''a'', ''b''], [''c'']]))
   \<and> tournament (constant_oracle ''a'') ''species'' (PyStr ''q'') 2 three_candidates []
     = Some (Inr (''a'', [[''a'', ''b''], [''c'']]))
   \<and> length [[''a'', ''b''], [''c'']] = (2::nat)
   \<and> spec_oracle_calls 2 (length three_candidates) [length [''a'']] = 3"
  by (simp add: eval_defs constant_oracle_def three_candidates_def spec_oracle_calls_def
      ceil_div_def)

text \<open>
  C7, amended. For a positive chunk size \<open>K\<close> and \<open>M\<close> candidates, a tournament that
  returns has made \<open>ceil(M/K)\<close> calls in round 0, then \<open>ceil(C\<^sub>i/K)\<close> calls for each
  unique-champion count \<open>C\<^sub>i\<close> of two or more, and none for a count of zero or one (the
  last count, at most \<open>K\<close>, costs one call when it is two or more). In particular 45
  candidates with \<open>K = 20\<close> whose round 0 leaves 3 distinct champions cost exactly 4 calls.
\<close>

theorem tournament_oracle_calls:
  assumes "0 < K"
    and "tournament orc prefix input_term K candidates log = Some (Inr (final_answer, log'))"
  shows "\<exists>unique_champions log0 counts st1.
           play_round orc prefix input_term K candidates log = Inr (unique_champions, log0)
         \<and> championship_rounds orc prefix input_term K (unique_champions, log0) counts st1
         \<and> length log' = length log + oracle_calls (nat K) (length candidates) counts
         \<and> (K = 20 \<longrightarrow> length candidates = 45 \<longrightarrow> length unique_champions = 3
              \<longrightarrow> length log' = length log + 4)"
proof -
  from tournament_runs [OF assms(2)] obtain st0 counts uc log1
    where r: "play_round orc prefix input_term K candidates log = Inr st0"
      and c: "championship_rounds orc prefix input_term K st0 counts (uc, log1)"
      and f: "final_decision orc prefix input_term uc log1 = (final_answer, log')" by blast
  obtain uc0 log0 where st0: "st0 = (uc0, log0)" by (cases st0)
  have l0: "length log0 = length log + ceil_div (length candidates) (nat K)"
    using play_round_length(3) [OF assms(1) r [unfolded st0]] .
  have l1: "length log1 = length log0 + sum_list (map (\<lambda>c. ceil_div c (nat K)) (butlast counts))"
    using championship_rounds_log [OF c assms(1)] by (simp add: st0)
  have l2: "length log' = length log1 + (if 2 \<le> length uc then 1 else 0)"
    using final_decision_calls [of orc prefix input_term uc log1] by (simp add: f)
  note e = championship_rounds_exit [OF c]
  have "sum_list (map (\<lambda>c. if 2 \<le> c then ceil_div c (nat K) else 0) counts)
           = sum_list (map (\<lambda>c. ceil_div c (nat K)) (butlast counts))
             + (if 2 \<le> last counts then 1 else 0)"
    using assms(1) e by (intro later_rounds_calls) auto
  with l0 l1 l2 e
  have total: "length log' = length log + oracle_calls (nat K) (length candidates) counts"
    by (simp add: oracle_calls_def)
  have four: "length log' = length log + 4"
    if "K = 20" "length candidates = 45" "length uc0 = 3"
  proof -
    have "counts = [3]"
      using championship_rounds_single [OF c] that by (simp add: st0)
    with total that show ?thesis by (simp add: oracle_calls_def ceil_div_def)
  qed
  from r c total four show ?thesis unfolding st0 by blast
qed

theorem tournament_oracle_calls_witness:
  "(0::int) < 20
   \<and> tournament echo_first ''cell_type'' (PyStr ''q'') 20 forty_five_candidates []
       = Some (Inr (''c01'', chunks_of 20 forty_five_candidates @ [[''c01'', ''c21'', ''c41'']]))
   \<and> length forty_five_candidates = 45
   \<and> play_round echo_first ''cell_type'' (PyStr ''q'') 20 forty_five_candidates []
       = Inr ([''c01'', ''c21'', ''c41''], chunks_of 20 forty_five_candidates)
   \<and> length (chunks_of 20 forty_five_candidates @ [[''c01'', ''c21'', ''c41'']]) = 4"
proof -
  have k: "(0::int) < 20" by simp
  have r: "play_round echo_first ''cell_type'' (PyStr ''q'') 20 forty_five_candidates []
       = Inr ([''c01'', ''c21'', ''c41''], chunks_of 20 forty_five_candidates)"
    by (simp add: eval_defs echo_first_def forty_five_candidates_def)
  have t: "tournament echo_first ''cell_type'' (PyStr ''q'') 20 forty_five_candidates []
       = Some (Inr (''c01'', chunks_of 20 forty_five_candidates @ [[''c01'', ''c21'', ''c41'']]))"
    by (simp add: eval_defs echo_first_def forty_five_candidates_def)
  have m: "length forty_five_candidates = 45" by (simp add: forty_five_candidates_def)
  from tournament_oracle_calls [OF k t] r m
  have "length (chunks_of 20 forty_five_candidates @ [[''c01'', ''c21'', ''c41'']])
          = length ([]::call_log) + 4"
    by auto
  with k r t m show ?thesis by simp
qed

section \<open>Receiving\<close>

lemma recv_facts:
  "recv n rx = Inr (bs, rx') \<Longrightarrow>
     available rx' + length bs = available rx \<and> length bs \<le> n
     \<and> (Reset \<notin> set rx \<longrightarrow> Reset \<notin> set rx')"
proof (induction n rx rule: recv.induct)
  case (1 n)
  then show ?case by simp
next
  case (2 n rest)
  then show ?case by simp
next
  case (3 n seg rest)
  then show ?case by (auto split: if_splits)
qed

lemma recv_no_reset: "Reset \<notin> set rx \<Longrightarrow> \<exists>bs rx'. recv n rx = Inr (bs, rx')"
proof (induction n rx rule: recv.induct)
  case (1 n)
  then show ?case by simp
next
  case (2 n rest)
  then show ?case by simp
next
  case (3 n seg rest)
  then show ?case by auto
qed

lemma recv_waitall_facts:
  "recv_waitall n rx = Inr (bs, rx') \<Longrightarrow> available rx' + length bs = available rx"
proof (induction n rx arbitrary: bs rx' rule: recv_waitall.induct)
  case (1 n)
  then show ?case by simp
next
  case (2 n rest)
  then show ?case by simp
next
  case (3 n seg rest)
  show ?case
  proof (cases "n \<le> length seg")
    case True
    with 3(2) show ?thesis by auto
  next
    case False
    with 3(2) obtain bs1 where r: "recv_waitall (n - length seg) rest = Inr (bs1, rx')"
      and bs: "bs = seg @ bs1"
      by (auto split: sum.splits)
    from 3(1) [OF False r] bs show ?thesis by simp
  qed
qed

lemma recv_payload_facts:
  "recv_payload msglen data_recv rx = Inr (data, rx') \<Longrightarrow>
     available rx' \<le> available rx \<and> (length data_recv \<le> msglen \<longrightarrow> length data = msglen)"
proof (induction msglen data_recv rx rule: recv_payload.induct)
  case (1 msglen data_recv rx)
  show ?case
  proof (cases "length data_recv < msglen")
    case False
    with 1(2) show ?thesis by (simp add: recv_payload.simps)
  next
    case True
    let ?k = "min BUFFER_SIZE (msglen - length data_recv)"
    from True 1(2) obtain packet rx1 where r: "recv ?k rx = Inr (packet, rx1)"
      and p: "packet \<noteq> []"
      and rest: "recv_payload msglen (data_recv @ packet) rx1 = Inr (data, rx')"
      by (subst (asm) recv_payload.simps) (auto split: sum.splits if_splits)
    note f = recv_facts [OF r]
    from 1(1) [OF True r refl p rest]
    have "available rx' \<le> available rx1"
      and "length (data_recv @ packet) \<le> msglen \<longrightarrow> length data = msglen" by simp_all
    moreover have "length (data_recv @ packet) \<le> msglen" using f True by auto
    moreover have "available rx1 \<le> available rx" using f by simp
    ultimately show ?thesis by simp
  qed
qed

lemma recv_payload_short:
  "Reset \<notin> set rx \<Longrightarrow> length data_recv + available rx < msglen
     \<Longrightarrow> recv_payload msglen data_recv rx = Inl ConnectionError"
proof (induction msglen data_recv rx rule: recv_payload.induct)
  case (1 msglen data_recv rx)
  let ?k = "min BUFFER_SIZE (msglen - length data_recv)"
  have lt: "length data_recv < msglen" using 1(3) by simp
  obtain packet rx1 where r: "recv ?k rx = Inr (packet, rx1)"
    using recv_no_reset [OF 1(2)] by blast
  note f = recv_facts [OF r]
  show ?case
  proof (cases "packet = []")
    case True
    with lt r show ?thesis by (subst recv_payload.simps) simp
  next
    case False
    have "Reset \<notin> set rx1" using f 1(2) by simp
    moreover have "length (data_recv @ packet) + available rx1 < msglen" using f 1(3) by simp
    ultimately have "recv_payload msglen (data_recv @ packet) rx1 = Inl ConnectionError"
      using 1(1) [OF lt r refl False] by simp
    with lt r False show ?thesis by (subst recv_payload.simps) simp
  qed
qed

section \<open>The session\<close>

lemmas session_defs = handle_request_def stop_session_def close_socket_def sendall_def Let_def

lemma handle_request_total:
  "\<exists>active s' log'. handle_request orc decode encode (s, log) = Some (active, s', log')
     \<and> ((\<not> active \<and> closed s' = Suc (closed s))
        \<or> (active \<and> closed s' = closed s \<and> available (incoming s') < available (incoming s)))"
proof (cases "recv_waitall 4 (incoming s)")
  case (Inl e)
  then show ?thesis by (auto simp: session_defs)
next
  case (Inr p)
  obtain hdr rx1 where w: "recv_waitall 4 (incoming s) = Inr (hdr, rx1)"
    using Inr by (cases p) simp
  show ?thesis
  proof (cases "hdr = []")
    case True
    with w show ?thesis by (auto simp: session_defs)
  next
    case hdr: False
    show ?thesis
    proof (cases "unpack_be32 hdr")
      case (Inl e)
      with w hdr show ?thesis by (auto simp: session_defs)
    next
      case (Inr msglen)
      note u = this
      show ?thesis
      proof (cases "recv_payload msglen [] rx1")
        case (Inl e)
        with w hdr u show ?thesis by (auto simp: session_defs)
      next
        case (Inr q)
        obtain data rx2 where pl: "recv_payload msglen [] rx1 = Inr (data, rx2)"
          using Inr by (cases q) simp
        have len: "length data = msglen" and av: "available rx2 \<le> available rx1"
          using recv_payload_facts [OF pl] by simp_all
        have lt: "available rx2 < available (incoming s)"
          using recv_waitall_facts [OF w] av hdr by (cases hdr) auto
        show ?thesis
        proof (cases "decode data")
          case None
          with w hdr u pl len show ?thesis by (auto simp: session_defs)
        next
          case (Some request_data)
          note d = this
          obtain r where
            run: "process_request_with_chunking orc request_data DEFAULT_CHUNK_SIZE log = Some r"
            using process_request_terminates [of DEFAULT_CHUNK_SIZE orc request_data log]
            by (auto simp: DEFAULT_CHUNK_SIZE_def)
          show ?thesis
          proof (cases r)
            case (Inl e)
            with w hdr u pl len d run show ?thesis by (auto simp: session_defs)
          next
            case (Inr res)
            obtain response_data log1 where res: "res = (response_data, log1)" by (cases res)
            note run = run [unfolded Inr res]
            show ?thesis
            proof (cases "pack_be32 (length (encode response_data))")
              case (Inl e)
              with w hdr u pl len d run show ?thesis by (auto simp: session_defs)
            next
              case (Inr header)
              with w hdr u pl len d run lt show ?thesis
                by (cases "peer_reading s") (auto simp: session_defs)
            qed
          qed
        qed
      qed
    qed
  qed
qed

lemma handle_client_returns:
  "\<exists>s' log'. handle_client orc decode encode (s, log) = Some (s', log')
      \<and> closed s' = Suc (closed s)"
proof (induction "available (incoming s)" arbitrary: s log rule: less_induct)
  case less
  from handle_request_total [of orc decode encode s log] obtain active s1 log1
    where r: "handle_request orc decode encode (s, log) = Some (active, s1, log1)"
      and o: "(\<not> active \<and> closed s1 = Suc (closed s))
        \<or> (active \<and> closed s1 = closed s \<and> available (incoming s1) < available (incoming s))"
    by blast
  from o show ?case
  proof
    assume "\<not> active \<and> closed s1 = Suc (closed s)"
    with r show ?thesis by (subst handle_client.simps) simp
  next
    assume a: "active \<and> closed s1 = closed s \<and> available (incoming s1) < available (incoming s)"
    with less [of s1 log1] obtain s' log' where
      "handle_client orc decode encode (s1, log1) = Some (s', log')" "closed s' = Suc (closed s1)"
      by blast
    with a r show ?thesis by (subst handle_client.simps) simp
  qed
qed

lemma handle_request_short_payload:
  assumes "recv_waitall 4 (incoming s) = Inr (hdr, rx1)" and "unpack_be32 hdr = Inr msglen"
    and "Reset \<notin> set rx1" and "available rx1 < msglen"
  shows "handle_request orc decode encode (s, log)
           = Some (False, close_socket (s\<lparr>incoming := rx1\<rparr>), log)"
proof -
  have "hdr \<noteq> []" using assms(2) by auto
  moreover have "recv_payload msglen [] rx1 = Inl ConnectionError"
    using recv_payload_short [OF assms(3), of "[]" msglen] assms(4) by simp
  ultimately show ?thesis
    using assms(1,2) by (simp add: handle_request_def stop_session_def)
qed

lemma handle_request_no_pair:
  assumes "recv_waitall 4 (incoming s) = Inr (hdr, rx1)" and "unpack_be32 hdr = Inr msglen"
    and "recv_payload msglen [] rx1 = Inr (data_recv, rx2)"
    and "decode data_recv = Some request_data"
    and "\<forall>prefix \<in> set possible_prefixes.
           request_data (requested_key prefix) = None \<or> request_data (list_key prefix) = None"
    and "pack_be32 (length (encode [''matcher_version'' \<mapsto> PyStr ''2.0''])) = Inr header"
    and "peer_reading s"
  shows "handle_request orc decode encode (s, log)
           = Some (True, s\<lparr>incoming := rx2,
                             outgoing := outgoing s @ header
                                @ encode [''matcher_version'' \<mapsto> PyStr ''2.0'']\<rparr>, log)"
proof -
  have hdr: "hdr \<noteq> []" using assms(2) by auto
  have len: "length data_recv = msglen" using recv_payload_facts [OF assms(3)] by simp
  have run: "process_request_with_chunking orc request_data DEFAULT_CHUNK_SIZE log
               = Some (Inr ([''matcher_version'' \<mapsto> PyStr ''2.0''], log))"
    using process_prefixes_absent [OF assms(5)]
    by (simp add: process_request_with_chunking_def MATCHER_VERSION_def)
  show ?thesis
    using assms(1,2,3,4,6,7) hdr len run by (simp add: session_defs)
qed

section \<open>Validation at the REST front end\<close>

lemmas rest_defs = rest_match_def validate_request_def check_paired_fields_def
  check_at_least_one_pair_def

lemma query_without_list_is_rejected:
  "(cell_type_requested r \<noteq> None \<and> falsy_list (cell_type_list r))
     \<or> (species_requested r \<noteq> None \<and> falsy_list (species_list r))
     \<or> (binding_molecule_requested r \<noteq> None \<and> falsy_list (binding_molecule_list r))
   \<Longrightarrow> rest_match orc r log = Some (Rejected ValueError, log)"
  by (auto simp: rest_defs)

lemma no_pair_is_rejected:
  assumes "cell_type_requested r = None \<or> cell_type_list r = None"
    and "species_requested r = None \<or> species_list r = None"
    and "binding_molecule_requested r = None \<or> binding_molecule_list r = None"
  shows "rest_match orc r log = Some (Rejected ValueError, log)"
proof (cases "cell_type_requested r = None \<and> species_requested r = None
              \<and> binding_molecule_requested r = None")
  case True
  then show ?thesis by (simp add: rest_defs)
next
  case False
  with assms have
    "(cell_type_requested r \<noteq> None \<and> falsy_list (cell_type_list r))
     \<or> (species_requested r \<noteq> None \<and> falsy_list (species_list r))
     \<or> (binding_molecule_requested r \<noteq> None \<and> falsy_list (binding_molecule_list r))"
    by auto
  then show ?thesis by (rule query_without_list_is_rejected)
qed

text \<open>
  C5, as stated, fails for a candidate list given without its query: the REST validators
  accept such a request when another category has its pair, and the match goes ahead for
  that category.
\<close>

theorem list_without_query_counterexample:
  "cell_type_requested list_without_query = None
   \<and> cell_type_list list_without_query = Some [''K562'']
   \<and> validate_request list_without_query = Inr list_without_query
   \<and> rest_match echo_first list_without_query []
       = Some (Matched [''species_actual'' \<mapsto> PyStr ''Homo sapiens'',
                        ''matcher_version'' \<mapsto> PyStr ''2.0''],
               [[''Homo sapiens'', ''Mus musculus'']])"
  by (simp add: rest_defs list_without_query_def perform_match_def model_dump_exclude_unset_def
      field_value_def dump_str_def dump_list_def DEFAULT_CHUNK_SIZE_def eval_defs echo_first_def)

text \<open>
  C5, amended. At the REST front end a request in which a category's query is given
  without a non-empty candidate list is rejected by validation before any matching
  begins: the result is the rejection and the oracle is not called. A category for which
  the request document lacks the query or the list is not a reason for rejection in the
  dispatcher: it skips that category, with no oracle call and no result key.
\<close>

theorem unpaired_query_rejected:
  "((cell_type_requested r \<noteq> None \<and> falsy_list (cell_type_list r))
      \<or> (species_requested r \<noteq> None \<and> falsy_list (species_list r))
      \<or> (binding_molecule_requested r \<noteq> None \<and> falsy_list (binding_molecule_list r))
     \<longrightarrow> rest_match orc r log = Some (Rejected ValueError, log))
   \<and> (request_data (requested_key prefix) = None \<or> request_data (list_key prefix) = None
     \<longrightarrow> process_prefix orc K request_data prefix (response_data, log)
           = Some (Inr (response_data, log)))"
  by (blast intro: query_without_list_is_rejected process_prefix_absent)

theorem unpaired_query_rejected_witness:
  "cell_type_requested query_without_list \<noteq> None
   \<and> falsy_list (cell_type_list query_without_list)
   \<and> rest_match echo_first query_without_list [] = Some (Rejected ValueError, [])
   \<and> empty_request (list_key ''species'') = None
   \<and> process_prefix echo_first 20 empty_request ''species'' (version_only, [])
       = Some (Inr (version_only, []))"
proof -
  have a: "cell_type_requested query_without_list \<noteq> None"
    and b: "falsy_list (cell_type_list query_without_list)"
    by (simp_all add: query_without_list_def)
  have c: "empty_request (list_key ''species'') = None" by (simp add: empty_request_def)
  from unpaired_query_rejected
    [of query_without_list echo_first "[]" empty_request "''species''" 20 version_only]
    a b c
  show ?thesis by simp
qed

text \<open>
  C6, as stated, fails on the framed TCP path, which has no validation: a frame holding
  the empty document is dispatched, and the session writes a response frame and stays
  active.
\<close>

theorem empty_document_counterexample:
  "decode_braces [123, 125] = Some empty_request
   \<and> handle_request echo_first decode_braces encode_version (empty_document_socket, [])
       = Some (True, \<lparr>incoming = [], outgoing = [0, 0, 0, 3, 50, 46, 48],
                       peer_reading = True, closed = 0\<rparr>, [])"
  by (simp add: handle_request_def empty_document_socket_def recv_payload.simps BUFFER_SIZE_def
      decode_braces_def encode_version_def DEFAULT_CHUNK_SIZE_def eval_defs pack_be32_def
      sendall_def stop_session_def close_socket_def empty_request_def)

text \<open>
  C6, amended. At the REST front end a request with no category pair is rejected by
  validation, and the oracle is not called. On the framed TCP path there is no validation:
  a well-framed document with no category pair is dispatched, the oracle is not called,
  and the session writes the frame of the response that holds only the matcher version
  and stays active.
\<close>

theorem no_pair_request_outcome:
  "((cell_type_requested r = None \<or> cell_type_list r = None)
      \<and> (species_requested r = None \<or> species_list r = None)
      \<and> (binding_molecule_requested r = None \<or> binding_molecule_list r = None)
     \<longrightarrow> rest_match orc r log = Some (Rejected ValueError, log))
   \<and> (recv_waitall 4 (incoming s) = Inr (hdr, rx1) \<longrightarrow> unpack_be32 hdr = Inr msglen
     \<longrightarrow> recv_payload msglen [] rx1 = Inr (data_recv, rx2)
     \<longrightarrow> decode data_recv = Some request_data
     \<longrightarrow> (\<forall>prefix \<in> set possible_prefixes.
            request_data (requested_key prefix) = None \<or> request_data (list_key prefix) = None)
     \<longrightarrow> pack_be32 (length (encode [''matcher_version'' \<mapsto> PyStr ''2.0''])) = Inr header
     \<longrightarrow> peer_reading s
     \<longrightarrow> handle_request orc decode encode (s, log)
           = Some (True, s\<lparr>incoming := rx2,
                             outgoing := outgoing s @ header
                                @ encode [''matcher_version'' \<mapsto> PyStr ''2.0'']\<rparr>, log))"
proof (intro conjI impI)
  assume "(cell_type_requested r = None \<or> cell_type_list r = None)
      \<and> (species_requested r = None \<or> species_list r = None)
      \<and> (binding_molecule_requested r = None \<or> binding_molecule_list r = None)"
  then show "rest_match orc r log = Some (Rejected ValueError, log)"
    by (intro no_pair_is_rejected) simp_all
next
  assume "recv_waitall 4 (incoming s) = Inr (hdr, rx1)" "unpack_be32 hdr = Inr msglen"
    "recv_payload msglen [] rx1 = Inr (data_recv, rx2)" "decode data_recv = Some request_data"
    "\<forall>prefix \<in> set possible_prefixes.
            request_data (requested_key prefix) = None \<or> request_data (list_key prefix) = None"
    "pack_be32 (length (encode [''matcher_version'' \<mapsto> PyStr ''2.0''])) = Inr header"
    "peer_reading s"
  then show "handle_request orc decode encode (s, log)
           = Some (True, s\<lparr>incoming := rx2,
                             outgoing := outgoing s @ header
                                @ encode [''matcher_version'' \<mapsto> PyStr ''2.0'']\<rparr>, log)"
    by (rule handle_request_no_pair)
qed

theorem no_pair_request_outcome_witness:
  "cell_type_requested no_fields = None \<and> species_requested no_fields = None
   \<and> binding_molecule_requested no_fields = None
   \<and> rest_match echo_first no_fields [] = Some (Rejected ValueError, [])
   \<and> recv_waitall 4 (incoming empty_document_socket) = Inr ([0, 0, 0, 2], [Data [123, 125]])
   \<and> unpack_be32 [0, 0, 0, 2] = Inr 2
   \<and> recv_payload 2 [] [Data [123, 125]] = Inr ([123, 125], [])
   \<and> decode_braces [123, 125] = Some empty_request
   \<and> pack_be32 (length (encode_version [''matcher_version'' \<mapsto> PyStr ''2.0''])) = Inr [0, 0, 0, 3]
   \<and> peer_reading empty_document_socket
   \<and> handle_request echo_first decode_braces encode_version (empty_document_socket, [])
       = Some (True, empty_document_socket\<lparr>incoming := [],
                 outgoing := outgoing empty_document_socket @ [0, 0, 0, 3]
                    @ encode_version [''matcher_version'' \<mapsto> PyStr ''2.0'']\<rparr>, [])"
proof -
  have a: "cell_type_requested no_fields = None" "species_requested no_fields = None"
    "binding_molecule_requested no_fields = None"
    by (simp_all add: no_fields_def)
  have w: "recv_waitall 4 (incoming empty_document_socket) = Inr ([0, 0, 0, 2], [Data [123, 125]])"
    by (simp add: empty_document_socket_def)
  have u: "unpack_be32 [0, 0, 0, 2] = Inr 2" by simp
  have p: "recv_payload 2 [] [Data [123, 125]] = Inr ([123, 125], [])"
    by (simp add: recv_payload.simps BUFFER_SIZE_def)
  have d: "decode_braces [123, 125] = Some empty_request"
    by (simp add: decode_braces_def empty_request_def)
  have n: "\<forall>prefix \<in> set possible_prefixes.
            empty_request (requested_key prefix) = None \<or> empty_request (list_key prefix) = None"
    by (simp add: empty_request_def)
  have k: "pack_be32 (length (encode_version [''matcher_version'' \<mapsto> PyStr ''2.0''])) = Inr [0, 0, 0, 3]"
    by (simp add: pack_be32_def encode_version_def)
  have r: "peer_reading empty_document_socket" by (simp add: empty_document_socket_def)
  from no_pair_request_outcome
    [of no_fields echo_first "[]" empty_document_socket "[0, 0, 0, 2]" "[Data [123, 125]]" 2
        "[123, 125]" "[]" decode_braces empty_request encode_version "[0, 0, 0, 3]"]
    a w u p d n k r
  show ?thesis by simp
qed

text \<open>
  C8. A session returns, with the connection closed exactly once, for every stream the
  peer delivers and then closes or resets, on every exit path. If the peer closes after a
  length prefix announcing \<open>N\<close> bytes and fewer than \<open>N\<close> payload bytes, the session ends
  on that exchange: no response frame is written, the oracle is not called, and the
  connection is closed once.
\<close>

theorem short_payload_closes_session:
  "(\<exists>s' log'. handle_client orc decode encode (s, log) = Some (s', log')
        \<and> closed s' = Suc (closed s))
   \<and> (recv_waitall 4 (incoming s) = Inr (hdr, rx1) \<longrightarrow> unpack_be32 hdr = Inr msglen
      \<longrightarrow> Reset \<notin> set rx1 \<longrightarrow> available rx1 < msglen
      \<longrightarrow> handle_client orc decode encode (s, log)
            = Some (s\<lparr>incoming := rx1, closed := Suc (closed s)\<rparr>, log))"
proof (intro conjI impI)
  show "\<exists>s' log'. handle_client orc decode encode (s, log) = Some (s', log')
        \<and> closed s' = Suc (closed s)"
    by (rule handle_client_returns)
next
  assume "recv_waitall 4 (incoming s) = Inr (hdr, rx1)" "unpack_be32 hdr = Inr msglen"
    "Reset \<notin> set rx1" "available rx1 < msglen"
  from handle_request_short_payload [OF this, of orc decode encode log]
  show "handle_client orc decode encode (s, log)
            = Some (s\<lparr>incoming := rx1, closed := Suc (closed s)\<rparr>, log)"
    by (subst handle_client.simps) (simp add: close_socket_def)
qed

theorem short_payload_closes_session_witness:
  "recv_waitall 4 (incoming short_payload_socket)
      = Inr ([0, 0, 0, 10], [Data [], Data [1, 2, 3, 4, 5]])
   \<and> unpack_be32 [0, 0, 0, 10] = Inr 10
   \<and> Reset \<notin> set [Data [], Data [1, 2, 3, 4, 5]]
   \<and> available [Data [], Data [1, 2, 3, 4, 5]] < 10
   \<and> handle_client echo_first decode_braces encode_version (short_payload_socket, [])
       = Some (\<lparr>incoming = [Data [], Data [1, 2, 3, 4, 5]], outgoing = [],
                 peer_reading = True, closed = 1\<rparr>, [])"
proof -
  have w: "recv_waitall 4 (incoming short_payload_socket)
      = Inr ([0, 0, 0, 10], [Data [], Data [1, 2, 3, 4, 5]])"
    by (simp add: short_payload_socket_def)
  have u: "unpack_be32 [0, 0, 0, 10] = Inr 10" by simp
  have n: "Reset \<notin> set [Data [], Data [1, 2, 3, 4, 5]]" by simp
  have a: "available [Data [], Data [1, 2, 3, 4, 5]] < 10" by simp
  from short_payload_closes_session
    [of echo_first decode_braces encode_version short_payload_socket "[]" "[0, 0, 0, 10]"
        "[Data [], Data [1, 2, 3, 4, 5]]" 10]
    w u n a
  show ?thesis by (simp add: short_payload_socket_def)
qed

end
